theory Spec2Isabelle
  imports Main
begin

section \<open>Operators of expressions (cc/expr.go)\<close>

text \<open>
  \<^verbatim>\<open>type ExprOp int\<close>: an operator is an integer. Only comparisons and an index are
  computed from it, so the width of Go's \<^verbatim>\<open>int\<close> plays no role and the model uses \<^typ>\<open>int\<close>.
  The constants are numbered by \<^verbatim>\<open>iota\<close>, starting after the blank identifier at 0.
  \<^verbatim>\<open>Not\<close> and \<^verbatim>\<open>Plus\<close> are names of HOL already and carry a suffix.
\<close>

type_synonym ExprOp = int

definition Add :: ExprOp where "Add = 1"
definition AddEq :: ExprOp where "AddEq = 2"
definition Addr :: ExprOp where "Addr = 3"
definition And :: ExprOp where "And = 4"
definition AndAnd :: ExprOp where "AndAnd = 5"
definition AndEq :: ExprOp where "AndEq = 6"
definition Arrow :: ExprOp where "Arrow = 7"
definition Call :: ExprOp where "Call = 8"
definition CUDACall :: ExprOp where "CUDACall = 9"
definition Cast :: ExprOp where "Cast = 10"
definition CastInit :: ExprOp where "CastInit = 11"
definition Comma :: ExprOp where "Comma = 12"
definition Cond :: ExprOp where "Cond = 13"
definition Div :: ExprOp where "Div = 14"
definition DivEq :: ExprOp where "DivEq = 15"
definition Dot :: ExprOp where "Dot = 16"
definition Eq :: ExprOp where "Eq = 17"
definition EqEq :: ExprOp where "EqEq = 18"
definition Gt :: ExprOp where "Gt = 19"
definition GtEq :: ExprOp where "GtEq = 20"
definition Index :: ExprOp where "Index = 21"
definition Indir :: ExprOp where "Indir = 22"
definition Lsh :: ExprOp where "Lsh = 23"
definition LshEq :: ExprOp where "LshEq = 24"
definition LcuBrk :: ExprOp where "LcuBrk = 25"
definition Lt :: ExprOp where "Lt = 26"
definition LtEq :: ExprOp where "LtEq = 27"
definition RcuBrk :: ExprOp where "RcuBrk = 28"
definition Minus :: ExprOp where "Minus = 29"
definition Mod :: ExprOp where "Mod = 30"
definition ModEq :: ExprOp where "ModEq = 31"
definition Mul :: ExprOp where "Mul = 32"
definition MulEq :: ExprOp where "MulEq = 33"
definition Name :: ExprOp where "Name = 34"
definition Not_op :: ExprOp where "Not_op = 35"
definition NotEq :: ExprOp where "NotEq = 36"
definition Number :: ExprOp where "Number = 37"
definition Literal :: ExprOp where "Literal = 38"
definition Offsetof :: ExprOp where "Offsetof = 39"
definition Or :: ExprOp where "Or = 40"
definition OrEq :: ExprOp where "OrEq = 41"
definition OrOr :: ExprOp where "OrOr = 42"
definition Paren :: ExprOp where "Paren = 43"
definition Plus_op :: ExprOp where "Plus_op = 44"
definition PostDec :: ExprOp where "PostDec = 45"
definition PostInc :: ExprOp where "PostInc = 46"
definition PreDec :: ExprOp where "PreDec = 47"
definition PreInc :: ExprOp where "PreInc = 48"
definition Rsh :: ExprOp where "Rsh = 49"
definition RshEq :: ExprOp where "RshEq = 50"
definition SizeofExpr :: ExprOp where "SizeofExpr = 51"
definition SizeofType :: ExprOp where "SizeofType = 52"
definition String :: ExprOp where "String = 53"
definition Sub :: ExprOp where "Sub = 54"
definition SubEq :: ExprOp where "SubEq = 55"
definition Twid :: ExprOp where "Twid = 56"
definition VaArg :: ExprOp where "VaArg = 57"
definition Xor :: ExprOp where "Xor = 58"
definition XorEq :: ExprOp where "XorEq = 59"
definition LCuBrk :: ExprOp where "LCuBrk = 60"
definition RCuBrk :: ExprOp where "RCuBrk = 61"

text \<open>
  A Go slice literal with keys, \<^verbatim>\<open>[]string{k1: v1, ...}\<close>, has one element more than its
  largest key and the empty string wherever no key is given.
\<close>

definition keyed_literal :: "(int \<times> string) list \<Rightarrow> string list" where
  "keyed_literal kvs =
     map (\<lambda>i. case map_of kvs (int i) of Some s \<Rightarrow> s | None \<Rightarrow> [])
       [0 ..< Suc (fold max (map (\<lambda>kv. nat (fst kv)) kvs) 0)]"

definition exprOpString :: "string list" where
  "exprOpString = keyed_literal
     [(Add, ''Add''), (AddEq, ''AddEq''), (Addr, ''Addr''), (And, ''And''),
      (AndAnd, ''AndAnd''), (AndEq, ''AndEq''), (Arrow, ''Arrow''), (Call, ''Call''),
      (Cast, ''Cast''), (CastInit, ''CastInit''), (Comma, ''Comma''), (Cond, ''Cond''),
      (Div, ''Div''), (DivEq, ''DivEq''), (Dot, ''Dot''), (Eq, ''Eq''), (EqEq, ''EqEq''),
      (Gt, ''Gt''), (GtEq, ''GtEq''), (Index, ''Index''), (Indir, ''Indir''), (Lsh, ''Lsh''),
      (LshEq, ''LshEq''), (Lt, ''Lt''), (LtEq, ''LtEq''), (Minus, ''Minus''), (Mod, ''Mod''),
      (ModEq, ''ModEq''), (Mul, ''Mul''), (MulEq, ''MulEq''), (Name, ''Name''),
      (Not_op, ''Not''), (NotEq, ''NotEq''), (Number, ''Number''), (Literal, ''Literal''),
      (Offsetof, ''Offsetof''), (Or, ''Or''), (OrEq, ''OrEq''), (OrOr, ''OrOr''),
      (Paren, ''Paren''), (Plus_op, ''Plus''), (PostDec, ''PostDec''), (PostInc, ''PostInc''),
      (PreDec, ''PreDec''), (PreInc, ''PreInc''), (Rsh, ''Rsh''), (RshEq, ''RshEq''),
      (SizeofExpr, ''SizeofExpr''), (SizeofType, ''SizeofType''), (String, ''String''),
      (Sub, ''Sub''), (SubEq, ''SubEq''), (Twid, ''Twid''), (VaArg, ''VaArg''), (Xor, ''Xor''),
      (XorEq, ''XorEq''), (LCuBrk, ''LCuBrk''), (RCuBrk, ''RCuBrk'')]"

subsection \<open>Panics and results\<close>

text \<open>
  The dynamic type of a \<^verbatim>\<open>Syntax\<close> value: the pointer types that \<^verbatim>\<open>walk\<close> switches on,
  \<^verbatim>\<open>*Prefix\<close> (declared in expr.go, with no case in \<^verbatim>\<open>walk\<close>), and any other
  type, given by its name.
\<close>

datatype kind =
    EmptyLiteral | BooleanLiteral | IntegerLiteral | CharLiteral | RealLiteral
  | StringLiteral | SymbolLiteral | LanguageKeyword
  | Prog | Decl | Init | Type | Expr | Stmt | Label
  | Prefix | Other string

text \<open>A run-time panic of the Go program.\<close>

datatype error =
    Index_out_of_range
  | Nil_dereference
  | Unexpected_type kind

subsection \<open>\<^verbatim>\<open>ExprOp.String\<close>\<close>

fun decimal :: "nat \<Rightarrow> string" where
  "decimal n =
     (if n < 10 then [char_of (48 + n)] else decimal (n div 10) @ [char_of (48 + n mod 10)])"

text \<open>The verb \<^verbatim>\<open>%d\<close> of \<^verbatim>\<open>fmt.Sprintf\<close>.\<close>

definition format_d :: "int \<Rightarrow> string" where
  "format_d i = (if i < 0 then CHR ''-'' # decimal (nat (- i)) else decimal (nat i))"

text \<open>Indexing a slice panics outside \<^verbatim>\<open>0 <= i < len(xs)\<close>.\<close>

definition index :: "'a list \<Rightarrow> int \<Rightarrow> error + 'a" where
  "index xs i = (if 0 \<le> i \<and> i < int (length xs) then Inr (xs ! nat i) else Inl Index_out_of_range)"

definition ExprOp_String :: "ExprOp \<Rightarrow> error + string" where
  "ExprOp_String op =
     (if 0 \<le> op \<and> op \<le> int (length exprOpString) then index exprOpString op
      else Inr (''ExprOp('' @ format_d op @ '')''))"

section \<open>Syntax values and expression nodes (cc/expr.go)\<close>

text \<open>
  A pointer is an address or nil (\<open>None\<close>). A value of the interface type \<^verbatim>\<open>Syntax\<close> is
  the nil interface or a pointer together with its dynamic type; a nil pointer inside an
  interface is not the nil interface, and two interface values are equal (as keys of the
  map \<^verbatim>\<open>seen\<close>) when both the type and the pointer are.
\<close>

type_synonym addr = nat

datatype Syntax = NilSyntax | Ptr kind "addr option"

text \<open>
  \<^verbatim>\<open>type Expr struct\<close>. The embedded \<^verbatim>\<open>SyntaxInfo\<close>, whose declaration is in another
  file, is read by none of the functions below and is left out.
\<close>

record expr_node =
  Expr_Id :: int
  Expr_Op :: ExprOp
  Expr_Left :: "addr option"
  Expr_Right :: "addr option"
  Expr_List :: "addr option list"
  Expr_LaunchParams :: "addr option list"
  Expr_Text :: Syntax
  Expr_Texts :: "Syntax list"
  Expr_Type :: "addr option"
  Expr_Init :: "addr option"
  Expr_Block :: "addr option list"
  Expr_SourceExpr :: "addr option"
  Expr_XDecl :: "addr option"
  Expr_XType :: "addr option"

text \<open>
  The loop \<^verbatim>\<open>for _, elem := range x.List { if elem != nil { lst = append(lst, elem) } }\<close>:
  the elements of the list that are not nil, as \<^verbatim>\<open>Syntax\<close> values of type \<^verbatim>\<open>*Expr\<close>.
\<close>

definition append_non_nil :: "Syntax list \<Rightarrow> addr option list \<Rightarrow> Syntax list" where
  "append_non_nil lst es = lst @ map (Ptr Expr) (filter (\<lambda>e. e \<noteq> None) es)"

text \<open>
  \<^verbatim>\<open>func (x *Expr) GetChildren() []Syntax\<close>. The text and the texts are appended before
  the switch on the operator. The case \<^verbatim>\<open>Cond\<close> indexes the list at 0, 1 and 2 and panics
  on a shorter list.
\<close>

definition GetChildren :: "expr_node \<Rightarrow> error + Syntax list" where
  "GetChildren x =
    (let lst = [];
         lst = (if Expr_Text x \<noteq> NilSyntax then lst @ [Expr_Text x] else lst);
         lst = (if length (Expr_Texts x) \<noteq> 0 then lst @ Expr_Texts x else lst)
     in
       if Expr_Op x = Arrow then Inr (lst @ [Ptr Expr (Expr_Left x)])
       else if Expr_Op x = Call then
         (let lst = lst @ [Ptr Expr (Expr_Left x)]
          in Inr (if length (Expr_List x) \<noteq> 0 then append_non_nil lst (Expr_List x) else lst))
       else if Expr_Op x = Comma then
         Inr (if length (Expr_List x) \<noteq> 0 then append_non_nil lst (Expr_List x) else lst)
       else if Expr_Op x = Cond then
         (case index (Expr_List x) 0 of Inl e \<Rightarrow> Inl e | Inr c \<Rightarrow>
          case index (Expr_List x) 1 of Inl e \<Rightarrow> Inl e | Inr t \<Rightarrow>
          case index (Expr_List x) 2 of Inl e \<Rightarrow> Inl e | Inr f \<Rightarrow>
            Inr (lst @ [Ptr Expr c, Ptr Expr t, Ptr Expr f]))
       else if Expr_Op x = Dot then Inr (lst @ [Ptr Expr (Expr_Left x)])
       else if Expr_Op x = Cast then Inr (lst @ [Ptr Type (Expr_Type x)])
       else if Expr_Op x = CastInit then Inr (lst @ [Ptr Type (Expr_Type x)])
       else if Expr_Op x = Index then
         Inr (lst @ [Ptr Expr (Expr_Left x), Ptr Expr (Expr_Right x)])
       else if Expr_Op x = Offsetof then
         Inr (lst @ [Ptr Type (Expr_Type x), Ptr Expr (Expr_Left x)])
       else if Expr_Op x = Paren then Inr (lst @ [Ptr Expr (Expr_Left x)])
       else if Expr_Op x = PostDec then Inr (lst @ [Ptr Expr (Expr_Left x)])
       else if Expr_Op x = PostInc then Inr (lst @ [Ptr Expr (Expr_Left x)])
       else if Expr_Op x = VaArg then
         Inr (lst @ [Ptr Expr (Expr_Left x), Ptr Type (Expr_Type x)])
       else
         (let lst = (if Expr_Type x \<noteq> None then lst @ [Ptr Type (Expr_Type x)] else lst);
              lst = (if Expr_Left x \<noteq> None then lst @ [Ptr Expr (Expr_Left x)] else lst);
              lst = (if Expr_Right x \<noteq> None then lst @ [Ptr Expr (Expr_Right x)] else lst)
          in Inr (if length (Expr_List x) \<noteq> 0 then append_non_nil lst (Expr_List x) else lst)))"

text \<open>
  A pointer that is nil, or the nil interface: what a reader of the child sequence would
  find absent.
\<close>

fun is_nil :: "Syntax \<Rightarrow> bool" where
  "is_nil NilSyntax = True"
| "is_nil (Ptr k None) = True"
| "is_nil (Ptr k (Some a)) = False"

section \<open>The traversal (cc/expr.go)\<close>

subsection \<open>The other nodes and the heap\<close>

text \<open>\<^verbatim>\<open>type Init struct\<close>, as declared in expr.go.\<close>

record init_node =
  Init_Id :: int
  Init_Prefix :: "addr option list"
  Init_Expr :: "addr option"
  Init_Braced :: "addr option list"
  Init_XType :: "addr option"

text \<open>
  Modelled from the spec: the declarations of \<^verbatim>\<open>Prog\<close>, \<^verbatim>\<open>Decl\<close>, \<^verbatim>\<open>Type\<close>, \<^verbatim>\<open>Stmt\<close> and
  \<^verbatim>\<open>Label\<close> are not in expr.go. Each record has the fields that \<^verbatim>\<open>walk\<close> reads, under
  the names \<^verbatim>\<open>walk\<close> uses, and a field holds the \<^verbatim>\<open>Syntax\<close> value that \<^verbatim>\<open>walk\<close> receives
  when the field is passed to it (for a field of a pointer type, that pointer with its
  type). The spec lists them: a type has a base, declarators and a width; a statement
  has a pre-expression, a condition, a post-expression, a declaration, a body, an
  else-branch, a label text, a block and case labels.
\<close>

record prog_node =
  Prog_Decls :: "Syntax list"

record decl_node =
  Decl_Type :: Syntax
  Decl_Init :: Syntax
  Decl_Body :: Syntax

record type_node =
  Type_Base :: Syntax
  Type_Decls :: "Syntax list"
  Type_Width :: Syntax

record stmt_node =
  Stmt_Pre :: Syntax
  Stmt_Expr :: Syntax
  Stmt_Post :: Syntax
  Stmt_Decl :: Syntax
  Stmt_Body :: Syntax
  Stmt_Else :: Syntax
  Stmt_Text :: Syntax
  Stmt_Block :: "Syntax list"
  Stmt_Labels :: "Syntax list"

record label_node =
  Label_Name :: Syntax
  Label_Expr :: Syntax

text \<open>
  The memory: what each non-nil pointer of each type points to. Nodes that refer to each
  other, or to themselves, are addresses stored in fields, so sharing and cycles are
  graphs in the heap. The literals have no field that \<^verbatim>\<open>walk\<close> reads.
\<close>

record heap =
  Progs :: "addr \<Rightarrow> prog_node"
  Decls :: "addr \<Rightarrow> decl_node"
  Inits :: "addr \<Rightarrow> init_node"
  Types :: "addr \<Rightarrow> type_node"
  Exprs :: "addr \<Rightarrow> expr_node"
  Stmts :: "addr \<Rightarrow> stmt_node"
  Labels :: "addr \<Rightarrow> label_node"

subsection \<open>\<^verbatim>\<open>walk\<close>\<close>

text \<open>
  The type switch of \<^verbatim>\<open>walk\<close>: for a value \<open>x\<close>, the arguments of the recursive calls of
  its case, in the order of the calls, or the panic. Reading a field through a nil pointer
  panics; the cases of the literals read nothing; a type with no case panics in the
  default case.
\<close>

fun walk_cases :: "heap \<Rightarrow> Syntax \<Rightarrow> error + Syntax list" where
  "walk_cases h NilSyntax = Inr []"
| "walk_cases h (Ptr EmptyLiteral p) = Inr []"
| "walk_cases h (Ptr BooleanLiteral p) = Inr []"
| "walk_cases h (Ptr IntegerLiteral p) = Inr []"
| "walk_cases h (Ptr CharLiteral p) = Inr []"
| "walk_cases h (Ptr RealLiteral p) = Inr []"
| "walk_cases h (Ptr StringLiteral p) = Inr []"
| "walk_cases h (Ptr SymbolLiteral p) = Inr []"
| "walk_cases h (Ptr LanguageKeyword p) = Inr []"
| "walk_cases h (Ptr Prog None) = Inl Nil_dereference"
| "walk_cases h (Ptr Prog (Some a)) = Inr (Prog_Decls (Progs h a))"
| "walk_cases h (Ptr Decl None) = Inl Nil_dereference"
| "walk_cases h (Ptr Decl (Some a)) =
     (let x = Decls h a in Inr [Decl_Type x, Decl_Init x, Decl_Body x])"
| "walk_cases h (Ptr Init None) = Inl Nil_dereference"
| "walk_cases h (Ptr Init (Some a)) =
     (let x = Inits h a in Inr (map (Ptr Init) (Init_Braced x) @ [Ptr Expr (Init_Expr x)]))"
| "walk_cases h (Ptr Type None) = Inl Nil_dereference"
| "walk_cases h (Ptr Type (Some a)) =
     (let x = Types h a in Inr ([Type_Base x] @ Type_Decls x @ [Type_Width x]))"
| "walk_cases h (Ptr Expr None) = Inl Nil_dereference"
| "walk_cases h (Ptr Expr (Some a)) =
     (let x = Exprs h a in
      Inr ([Ptr Expr (Expr_Left x), Expr_Text x, Ptr Expr (Expr_Right x)]
           @ map (Ptr Expr) (Expr_LaunchParams x)
           @ Expr_Texts x
           @ map (Ptr Expr) (Expr_List x)
           @ [Ptr Type (Expr_Type x), Ptr Init (Expr_Init x)]
           @ map (Ptr Stmt) (Expr_Block x)))"
| "walk_cases h (Ptr Stmt None) = Inl Nil_dereference"
| "walk_cases h (Ptr Stmt (Some a)) =
     (let x = Stmts h a in
      Inr ([Stmt_Pre x, Stmt_Expr x, Stmt_Post x, Stmt_Decl x, Stmt_Body x, Stmt_Else x,
            Stmt_Text x]
           @ Stmt_Block x @ Stmt_Labels x))"
| "walk_cases h (Ptr Label None) = Inl Nil_dereference"
| "walk_cases h (Ptr Label (Some a)) =
     (let x = Labels h a in Inr [Label_Name x, Label_Expr x])"
| "walk_cases h (Ptr Prefix p) = Inl (Unexpected_type Prefix)"
| "walk_cases h (Ptr (Other n) p) = Inl (Unexpected_type (Other n))"

text \<open>
  Calls in sequence, each on the state the one before has left; a panic ends the
  sequence. The result \<open>None\<close> is no result: the bound on the depth of the recursion
  (below) was reached.
\<close>

primrec walk_each ::
  "('a \<Rightarrow> 's \<Rightarrow> (error + 's) option) \<Rightarrow> 'a list \<Rightarrow> 's \<Rightarrow> (error + 's) option" where
  "walk_each f [] s = Some (Inr s)"
| "walk_each f (y # ys) s =
     (case f y s of
        None \<Rightarrow> None
      | Some (Inl e) \<Rightarrow> Some (Inl e)
      | Some (Inr s') \<Rightarrow> walk_each f ys s')"

text \<open>
  \<^verbatim>\<open>func walk(x Syntax, before, after func(Syntax), seen map[Syntax]bool)\<close>. The map
  \<^verbatim>\<open>seen\<close> only ever stores \<^verbatim>\<open>true\<close>, so it is the set of its keys. The callbacks act
  on a state \<open>'u\<close> of the caller (they do not change the heap); the state of the walk is
  the pair of \<^verbatim>\<open>seen\<close> and that state. The first argument bounds the depth of the
  recursion: with depth 0 left there is no result (\<open>None\<close>); \<open>Some (Inl e)\<close> is a panic and
  \<open>Some (Inr s)\<close> a return.
\<close>

primrec walk ::
  "nat \<Rightarrow> heap \<Rightarrow> Syntax \<Rightarrow> (Syntax \<Rightarrow> 'u \<Rightarrow> 'u) \<Rightarrow> (Syntax \<Rightarrow> 'u \<Rightarrow> 'u) \<Rightarrow>
     Syntax set \<times> 'u \<Rightarrow> (error + Syntax set \<times> 'u) option" where
  "walk 0 h x before after s = None"
| "walk (Suc n) h x before after s =
     (if x = NilSyntax then Some (Inr s)
      else if x \<in> fst s then Some (Inr s)
      else
        (let seen = insert x (fst s);
             u = before x (snd s)
         in case walk_cases h x of
              Inl e \<Rightarrow> Some (Inl e)
            | Inr ys \<Rightarrow>
                (case walk_each (\<lambda>y. walk n h y before after) ys (seen, u) of
                   None \<Rightarrow> None
                 | Some (Inl e) \<Rightarrow> Some (Inl e)
                 | Some (Inr s') \<Rightarrow> Some (Inr (fst s', after x (snd s'))))))"

text \<open>The initial \<^verbatim>\<open>seen\<close> of \<^verbatim>\<open>Walk\<close>: the nil interface and the nil pointers of thirteen types.\<close>

definition nil_seen :: "Syntax set" where
  "nil_seen =
     {NilSyntax, Ptr EmptyLiteral None, Ptr IntegerLiteral None, Ptr CharLiteral None,
      Ptr RealLiteral None, Ptr StringLiteral None, Ptr SymbolLiteral None,
      Ptr LanguageKeyword None, Ptr Decl None, Ptr Init None, Ptr Type None, Ptr Expr None,
      Ptr Stmt None, Ptr Label None}"

text \<open>\<^verbatim>\<open>Walk\<close> returns nothing; the model returns the state of the caller that the callbacks leave.\<close>

definition Walk ::
  "nat \<Rightarrow> heap \<Rightarrow> Syntax \<Rightarrow> (Syntax \<Rightarrow> 'u \<Rightarrow> 'u) \<Rightarrow> (Syntax \<Rightarrow> 'u \<Rightarrow> 'u) \<Rightarrow> 'u \<Rightarrow> (error + 'u) option" where
  "Walk n h x before after u =
     (case walk n h x before after (nil_seen, u) of
        None \<Rightarrow> None
      | Some (Inl e) \<Rightarrow> Some (Inl e)
      | Some (Inr s) \<Rightarrow> Some (Inr (snd s)))"

definition Preorder :: "nat \<Rightarrow> heap \<Rightarrow> Syntax \<Rightarrow> (Syntax \<Rightarrow> 'u \<Rightarrow> 'u) \<Rightarrow> 'u \<Rightarrow> (error + 'u) option" where
  "Preorder n h x f u = Walk n h x f (\<lambda>_ u. u) u"

definition Postorder :: "nat \<Rightarrow> heap \<Rightarrow> Syntax \<Rightarrow> (Syntax \<Rightarrow> 'u \<Rightarrow> 'u) \<Rightarrow> 'u \<Rightarrow> (error + 'u) option" where
  "Postorder n h x f u = Walk n h x (\<lambda>_ u. u) f u"

subsection \<open>What the claims about the traversal speak of\<close>

text \<open>A callback that records the value it is called on.\<close>

definition record_call :: "Syntax \<Rightarrow> Syntax list \<Rightarrow> Syntax list" where
  "record_call x t = t @ [x]"

text \<open>The calls of the two callbacks of a walk, as events, and the callbacks run along them.\<close>

datatype event = Enter Syntax | Exit Syntax

fun enters :: "event list \<Rightarrow> Syntax list" where
  "enters [] = []"
| "enters (Enter x # es) = x # enters es"
| "enters (Exit x # es) = enters es"

fun exits :: "event list \<Rightarrow> Syntax list" where
  "exits [] = []"
| "exits (Enter x # es) = exits es"
| "exits (Exit x # es) = x # exits es"

definition record_enter :: "Syntax \<Rightarrow> event list \<Rightarrow> event list" where
  "record_enter x t = t @ [Enter x]"

definition record_exit :: "Syntax \<Rightarrow> event list \<Rightarrow> event list" where
  "record_exit x t = t @ [Exit x]"

fun call :: "(Syntax \<Rightarrow> 'u \<Rightarrow> 'u) \<Rightarrow> (Syntax \<Rightarrow> 'u \<Rightarrow> 'u) \<Rightarrow> event \<Rightarrow> 'u \<Rightarrow> 'u" where
  "call before after (Enter x) u = before x u"
| "call before after (Exit x) u = after x u"

text \<open>
  The values that a walk from a root can meet: the root, and every value that \<^verbatim>\<open>walk\<close> is
  called on from one of them, the values of the initial \<^verbatim>\<open>seen\<close> (nil) apart. A graph is
  finite when they are finitely many.
\<close>

inductive_set reachable :: "heap \<Rightarrow> Syntax \<Rightarrow> Syntax set" for h :: heap and root :: Syntax where
  root: "root \<notin> nil_seen \<Longrightarrow> root \<in> reachable h root"
| child: "x \<in> reachable h root \<Longrightarrow> walk_cases h x = Inr ys \<Longrightarrow> y \<in> set ys \<Longrightarrow> y \<notin> nil_seen \<Longrightarrow>
     y \<in> reachable h root"

text \<open>
  The slots that the type switch of \<^verbatim>\<open>walk\<close> descends into, listed for each type of node
  as a set: the declarations of a program; type, initializer and body of a declaration;
  the braced initializers and the expression of an initializer (not its prefixes); base,
  declarators and width of a type; left, text, right, launch parameters, texts, list,
  type, initializer and block of an expression; the nine slots of a statement; name and
  expression of a label. A literal, a prefix, a value of another type and a nil pointer
  have none.
\<close>

fun descends :: "heap \<Rightarrow> Syntax \<Rightarrow> Syntax set" where
  "descends h (Ptr Prog (Some a)) = set (Prog_Decls (Progs h a))"
| "descends h (Ptr Decl (Some a)) =
     {Decl_Type (Decls h a), Decl_Init (Decls h a), Decl_Body (Decls h a)}"
| "descends h (Ptr Init (Some a)) =
     Ptr Init ` set (Init_Braced (Inits h a)) \<union> {Ptr Expr (Init_Expr (Inits h a))}"
| "descends h (Ptr Type (Some a)) =
     {Type_Base (Types h a), Type_Width (Types h a)} \<union> set (Type_Decls (Types h a))"
| "descends h (Ptr Expr (Some a)) =
     {Ptr Expr (Expr_Left (Exprs h a)), Expr_Text (Exprs h a), Ptr Expr (Expr_Right (Exprs h a)),
      Ptr Type (Expr_Type (Exprs h a)), Ptr Init (Expr_Init (Exprs h a))}
     \<union> Ptr Expr ` set (Expr_LaunchParams (Exprs h a)) \<union> set (Expr_Texts (Exprs h a))
     \<union> Ptr Expr ` set (Expr_List (Exprs h a)) \<union> Ptr Stmt ` set (Expr_Block (Exprs h a))"
| "descends h (Ptr Stmt (Some a)) =
     {Stmt_Pre (Stmts h a), Stmt_Expr (Stmts h a), Stmt_Post (Stmts h a), Stmt_Decl (Stmts h a),
      Stmt_Body (Stmts h a), Stmt_Else (Stmts h a), Stmt_Text (Stmts h a)}
     \<union> set (Stmt_Block (Stmts h a)) \<union> set (Stmt_Labels (Stmts h a))"
| "descends h (Ptr Label (Some a)) = {Label_Name (Labels h a), Label_Expr (Labels h a)}"
| "descends h x = {}"

text \<open>
  The nodes that can be reached from a root through these slots, the values of the
  initial \<^verbatim>\<open>seen\<close> (nil) apart.
\<close>

inductive_set walk_reachable :: "heap \<Rightarrow> Syntax \<Rightarrow> Syntax set"
  for h :: heap and root :: Syntax where
  start: "root \<notin> nil_seen \<Longrightarrow> root \<in> walk_reachable h root"
| slot: "x \<in> walk_reachable h root \<Longrightarrow> y \<in> descends h x \<Longrightarrow> y \<notin> nil_seen \<Longrightarrow>
     y \<in> walk_reachable h root"

text \<open>
  \<^verbatim>\<open>func (x *Init) GetChildren() []Syntax\<close>: the prefixes, the expression if it is set, the
  braced initializers.
\<close>

definition Init_GetChildren :: "init_node \<Rightarrow> Syntax list" where
  "Init_GetChildren x =
     (let lst = [];
          lst = lst @ map (Ptr Prefix) (Init_Prefix x);
          lst = (if Init_Expr x \<noteq> None then lst @ [Ptr Expr (Init_Expr x)] else lst);
          lst = lst @ map (Ptr Init) (Init_Braced x)
      in lst)"

text \<open>The types with a case in the type switch of \<^verbatim>\<open>walk\<close>.\<close>

fun has_case :: "kind \<Rightarrow> bool" where
  "has_case Prefix = False"
| "has_case (Other n) = False"
| "has_case k = True"

text \<open>
  A walk that returns, as a relation: \<open>visit\<close> for one call of \<^verbatim>\<open>walk\<close>, from the set
  \<^verbatim>\<open>seen\<close> and the caller's state before to those after, and \<open>visit_all\<close> for calls in
  sequence.
\<close>

inductive visit ::
    "heap \<Rightarrow> (Syntax \<Rightarrow> 'u \<Rightarrow> 'u) \<Rightarrow> (Syntax \<Rightarrow> 'u \<Rightarrow> 'u) \<Rightarrow> Syntax \<Rightarrow> Syntax set \<Rightarrow> 'u \<Rightarrow> Syntax set \<Rightarrow> 'u \<Rightarrow> bool"
  and visit_all ::
    "heap \<Rightarrow> (Syntax \<Rightarrow> 'u \<Rightarrow> 'u) \<Rightarrow> (Syntax \<Rightarrow> 'u \<Rightarrow> 'u) \<Rightarrow> Syntax list \<Rightarrow> Syntax set \<Rightarrow> 'u \<Rightarrow> Syntax set \<Rightarrow> 'u \<Rightarrow> bool"
  for h :: heap and before :: "Syntax \<Rightarrow> 'u \<Rightarrow> 'u" and after :: "Syntax \<Rightarrow> 'u \<Rightarrow> 'u" where
  skip: "x = NilSyntax \<or> x \<in> S \<Longrightarrow> visit h before after x S u S u"
| enter: "x \<noteq> NilSyntax \<Longrightarrow> x \<notin> S \<Longrightarrow> walk_cases h x = Inr ys \<Longrightarrow>
     visit_all h before after ys (insert x S) (before x u) S' u' \<Longrightarrow>
     visit h before after x S u S' (after x u')"
| all_nil: "visit_all h before after [] S u S u"
| all_cons: "visit h before after y S u T v \<Longrightarrow> visit_all h before after ys T v S' u' \<Longrightarrow>
     visit_all h before after (y # ys) S u S' u'"

text \<open>
  Two facts about a returning walk from \<open>S\<close>, \<open>u\<close> to \<open>S'\<close>, \<open>u'\<close>. The callbacks have run
  along a sequence of events that enters each value of \<open>S' - S\<close> once and leaves it once;
  and every value added to \<^verbatim>\<open>seen\<close> has a case whose calls are all on values of \<open>S'\<close>.
\<close>

definition events_of ::
  "(Syntax \<Rightarrow> 'u \<Rightarrow> 'u) \<Rightarrow> (Syntax \<Rightarrow> 'u \<Rightarrow> 'u) \<Rightarrow> Syntax set \<Rightarrow> 'u \<Rightarrow> Syntax set \<Rightarrow> 'u \<Rightarrow> bool" where
  "events_of b a S u S' u' \<longleftrightarrow> S \<subseteq> S' \<and>
     (\<exists>evs. u' = fold (call b a) evs u \<and> distinct (enters evs) \<and> set (enters evs) = S' - S
        \<and> distinct (exits evs) \<and> set (exits evs) = S' - S)"

definition closed_in :: "heap \<Rightarrow> Syntax set \<Rightarrow> Syntax set \<Rightarrow> bool" where
  "closed_in h S S' \<longleftrightarrow> (\<forall>v\<in>S' - S. \<exists>ys. walk_cases h v = Inr ys \<and> set ys \<subseteq> S')"

subsection \<open>What the claims about \<^verbatim>\<open>GetChildren\<close> speak of\<close>

text \<open>The part of the child sequence that is appended before the switch on the operator.\<close>

definition text_children :: "expr_node \<Rightarrow> Syntax list" where
  "text_children x = (if Expr_Text x \<noteq> NilSyntax then [Expr_Text x] else []) @ Expr_Texts x"

text \<open>A slot appended only if it is set, as in the default case.\<close>

definition opt :: "kind \<Rightarrow> addr option \<Rightarrow> Syntax list" where
  "opt k p = (if p \<noteq> None then [Ptr k p] else [])"

text \<open>
  The slots that the case of the operator appends without a test are set, and the text
  payloads hold no nil pointer.
\<close>

definition required_slots_set :: "expr_node \<Rightarrow> bool" where
  "required_slots_set x =
     (let op = Expr_Op x in
      if op = Arrow \<or> op = Call \<or> op = Dot \<or> op = Paren \<or> op = PostDec \<or> op = PostInc
        then Expr_Left x \<noteq> None
      else if op = Cast \<or> op = CastInit then Expr_Type x \<noteq> None
      else if op = Index then Expr_Left x \<noteq> None \<and> Expr_Right x \<noteq> None
      else if op = Offsetof \<or> op = VaArg then Expr_Left x \<noteq> None \<and> Expr_Type x \<noteq> None
      else if op = Cond then list_all (\<lambda>e. e \<noteq> None) (take 3 (Expr_List x))
      else True)"

definition texts_not_nil :: "expr_node \<Rightarrow> bool" where
  "texts_not_nil x =
     ((Expr_Text x = NilSyntax \<or> \<not> is_nil (Expr_Text x))
      \<and> list_all (\<lambda>t. \<not> is_nil t) (Expr_Texts x))"


subsection \<open>Example nodes and an example heap\<close>

text \<open>An expression with every slot unset.\<close>

definition leaf_expr :: expr_node where
  "leaf_expr = \<lparr>Expr_Id = 0, Expr_Op = Name, Expr_Left = None, Expr_Right = None,
     Expr_List = [], Expr_LaunchParams = [], Expr_Text = NilSyntax,
     Expr_Texts = [], Expr_Type = None, Expr_Init = None, Expr_Block = [],
     Expr_SourceExpr = None, Expr_XDecl = None, Expr_XType = None\<rparr>"

text \<open>\<^verbatim>\<open>p->field\<close>: an \<^verbatim>\<open>Arrow\<close> with its left operand and the name of the member.\<close>

definition arrow_node :: expr_node where
  "arrow_node = leaf_expr\<lparr>Expr_Id := 1, Expr_Op := Arrow, Expr_Left := Some 2,
     Expr_Text := Ptr SymbolLiteral (Some 3)\<rparr>"

text \<open>An \<^verbatim>\<open>Arrow\<close> whose left operand is not set.\<close>

definition arrow_no_left :: expr_node where
  "arrow_no_left = leaf_expr\<lparr>Expr_Id := 1, Expr_Op := Arrow,
     Expr_Text := Ptr SymbolLiteral (Some 3)\<rparr>"

text \<open>\<^verbatim>\<open>c ? t : e\<close> with no text.\<close>

definition cond_plain :: expr_node where
  "cond_plain = leaf_expr\<lparr>Expr_Id := 1, Expr_Op := Cond, Expr_List := [Some 2, Some 3, Some 4]\<rparr>"

text \<open>
  A heap with sharing and a cycle. Expression 0 is the cast \<^verbatim>\<open>(T) x\<close>: its type is type 0
  and its operand is expression 1, the name \<^verbatim>\<open>x\<close> with the symbol 0 as text. Type 0 has
  the declaration 0 among its declarators and expression 1 again as its width; the
  declaration 0 has type 0 as its type, which closes a cycle. Both expressions point back
  to the declaration 0 through \<^verbatim>\<open>XDecl\<close>.
\<close>

definition cast_heap :: heap where
  "cast_heap = \<lparr>
     Progs = (\<lambda>a. \<lparr>Prog_Decls = []\<rparr>),
     Decls = (\<lambda>a. \<lparr>Decl_Type = Ptr Type (Some 0), Decl_Init = Ptr Init None,
                   Decl_Body = Ptr Stmt None\<rparr>),
     Inits = (\<lambda>a. \<lparr>Init_Id = 0, Init_Prefix = [], Init_Expr = None, Init_Braced = [],
                   Init_XType = None\<rparr>),
     Types = (\<lambda>a. \<lparr>Type_Base = Ptr Type None, Type_Decls = [Ptr Decl (Some 0)],
                   Type_Width = Ptr Expr (Some 1)\<rparr>),
     Exprs = (\<lambda>a. if a = 0
                then leaf_expr\<lparr>Expr_Id := 1, Expr_Op := Cast, Expr_Left := Some 1,
                       Expr_Type := Some 0, Expr_XDecl := Some 0\<rparr>
                else leaf_expr\<lparr>Expr_Id := 2, Expr_Text := Ptr SymbolLiteral (Some 0),
                       Expr_XDecl := Some 0\<rparr>),
     Stmts = (\<lambda>a. \<lparr>Stmt_Pre = NilSyntax, Stmt_Expr = NilSyntax, Stmt_Post = NilSyntax,
                   Stmt_Decl = NilSyntax, Stmt_Body = NilSyntax, Stmt_Else = NilSyntax,
                   Stmt_Text = NilSyntax, Stmt_Block = [], Stmt_Labels = []\<rparr>),
     Labels = (\<lambda>a. \<lparr>Label_Name = NilSyntax, Label_Expr = NilSyntax\<rparr>)\<rparr>"

text \<open>The same heap, except that every expression has a \<^verbatim>\<open>*Prefix\<close> among its texts.\<close>

definition prefix_heap :: heap where
  "prefix_heap = cast_heap\<lparr>
     Exprs := (\<lambda>a. leaf_expr\<lparr>Expr_Id := 3, Expr_Texts := [Ptr Prefix (Some 0)]\<rparr>)\<rparr>"

text \<open>The same heap, except that every initializer has the prefix 0 and nothing else.\<close>

definition init_heap :: heap where
  "init_heap = cast_heap\<lparr>
     Inits := (\<lambda>a. \<lparr>Init_Id = 0, Init_Prefix = [Some 0], Init_Expr = None, Init_Braced = [],
                    Init_XType = None\<rparr>)\<rparr>"

section \<open>The codec of \<^verbatim>\<open>CastExpr\<close> (syntax/ast/cast\_expr.go)\<close>

text \<open>
  The functions of cast\_expr.go hand their work to \<^verbatim>\<open>encoding/json\<close> of the Go library.
  A byte slice is represented by what the syntax check of \<^verbatim>\<open>json.Unmarshal\<close> makes of it:
  a well-formed JSON text, given by its value, or a malformed one.
\<close>

datatype json =
    JNull | JBool bool | JNumber int | JString string | JArray "json list"
  | JObject "(string \<times> json) list"

datatype data = Wellformed json | Malformed string

text \<open>The errors that \<^verbatim>\<open>json.Unmarshal\<close> returns before it stores anything.\<close>

datatype json_error = SyntaxError | InvalidUnmarshalError

text \<open>
  \<^verbatim>\<open>type CastExpr struct\<close>. \<^verbatim>\<open>AssignOp\<close>, \<^verbatim>\<open>Type\<close> and \<^verbatim>\<open>Expr\<close> are declared in other
  files of the package; the operator is an integer here and the two children are
  pointers. The embedded \<^verbatim>\<open>SyntaxInfo\<close> is left out.
\<close>

record cast_expr =
  CastExpr_Kind :: string
  CastExpr_Id :: int
  CastExpr_Op :: int
  CastExpr_Type :: "addr option"
  CastExpr_Expr :: "addr option"

text \<open>
  \<^verbatim>\<open>func (x *CastExpr) MarshalJSON() ([]byte, error)\<close>: sets the discriminant of a non-nil
  receiver, then dereferences the receiver (a panic when it is nil) and passes the struct
  to \<^verbatim>\<open>json.Marshal\<close>. The encoder of the library for the struct value is the parameter
  \<open>marshal\<close>; what it returns without an error is a well-formed JSON text. The result is
  the receiver as the call leaves it, with the encoding or the error.
\<close>

definition MarshalJSON ::
  "(cast_expr \<Rightarrow> json_error + json) \<Rightarrow> cast_expr option \<Rightarrow>
     error + cast_expr \<times> (json_error + data)" where
  "MarshalJSON marshal x =
     (case x of
        None \<Rightarrow> Inl Nil_dereference
      | Some c \<Rightarrow>
          (let c' = c\<lparr>CastExpr_Kind := ''CastExpr''\<rparr>
           in Inr (c', case marshal c' of Inl e \<Rightarrow> Inl e | Inr j \<Rightarrow> Inr (Wellformed j))))"

text \<open>
  \<^verbatim>\<open>func (x *CastExpr) UnmarshalJSON(data []byte) error { return json.Unmarshal(data, x) }\<close>.
  \<^verbatim>\<open>json.Unmarshal(data, v)\<close> returns a \<^verbatim>\<open>SyntaxError\<close> for a malformed text and an
  \<^verbatim>\<open>InvalidUnmarshalError\<close> for a nil pointer \<open>v\<close>; otherwise, \<open>v\<close> being a pointer whose type
  implements \<^verbatim>\<open>json.Unmarshaler\<close>, it calls \<^verbatim>\<open>v.UnmarshalJSON\<close> on the text, which is this
  function again. The two functions are written as one; \<open>None\<close> is a call that does not
  return (in Go the stack overflows, which ends the process).
\<close>

partial_function (option) UnmarshalJSON ::
  "data \<Rightarrow> cast_expr option \<Rightarrow> (json_error + cast_expr) option" where
  "UnmarshalJSON d x =
     (case d of
        Malformed s \<Rightarrow> Some (Inl SyntaxError)
      | Wellformed j \<Rightarrow>
          (case x of
             None \<Rightarrow> Some (Inl InvalidUnmarshalError)
           | Some c \<Rightarrow> UnmarshalJSON d x))"

text \<open>Example values of the codec: a cast with operator 17 and an encoder for it.\<close>

definition cast_example :: cast_expr where
  "cast_example = \<lparr>CastExpr_Kind = [], CastExpr_Id = 7, CastExpr_Op = 17,
     CastExpr_Type = Some 0, CastExpr_Expr = Some 1\<rparr>"

definition marshal_example :: "cast_expr \<Rightarrow> json_error + json" where
  "marshal_example c =
     Inr (JObject [(''kind'', JString (CastExpr_Kind c)), (''id'', JNumber (CastExpr_Id c)),
                   (''op'', JNumber (CastExpr_Op c)), (''type'', JObject []),
                   (''expr'', JObject [])])"

section \<open>Properties of \<^verbatim>\<open>ExprOp.String\<close>\<close>

lemmas ExprOp_defs =
  Add_def AddEq_def Addr_def And_def AndAnd_def AndEq_def Arrow_def Call_def CUDACall_def
  Cast_def CastInit_def Comma_def Cond_def Div_def DivEq_def Dot_def Eq_def EqEq_def Gt_def
  GtEq_def Index_def Indir_def Lsh_def LshEq_def LcuBrk_def Lt_def LtEq_def RcuBrk_def
  Minus_def Mod_def ModEq_def Mul_def MulEq_def Name_def Not_op_def NotEq_def Number_def
  Literal_def Offsetof_def Or_def OrEq_def OrOr_def Paren_def Plus_op_def PostDec_def
  PostInc_def PreDec_def PreInc_def Rsh_def RshEq_def SizeofExpr_def SizeofType_def
  String_def Sub_def SubEq_def Twid_def VaArg_def Xor_def XorEq_def LCuBrk_def RCuBrk_def

lemma len: "length exprOpString = 62"
  by (simp add: exprOpString_def keyed_literal_def ExprOp_defs)

lemma ExprOp_String_outside:
  "op < 0 \<or> int (length exprOpString) < op \<Longrightarrow>
     ExprOp_String op = Inr (''ExprOp('' @ format_d op @ '')'')"
  by (auto simp add: ExprOp_String_def)

lemma ExprOp_String_inside:
  "0 \<le> op \<Longrightarrow> op < int (length exprOpString) \<Longrightarrow> ExprOp_String op = Inr (exprOpString ! nat op)"
  by (auto simp add: ExprOp_String_def index_def)

text \<open>
  Claim C10: \<^verbatim>\<open>ExprOp.String\<close> is total and returns the fallback \<^verbatim>\<open>ExprOp(%d)\<close> for every
  value outside the enumeration, the value equal to the length of the name table
  included. The guard of the function is \<^verbatim>\<open>int(op) <= len(exprOpString)\<close>, so at that
  value (62) the table is indexed one past its end and the call panics.
\<close>

theorem ExprOp_String_panics_at_table_length:
  "ExprOp_String (int (length exprOpString)) = Inl Index_out_of_range
   \<and> int (length exprOpString) = 62"
  by (simp add: ExprOp_String_def index_def len)

section \<open>Properties of \<^verbatim>\<open>GetChildren\<close>\<close>

lemmas switch_ops = Arrow_def Call_def Comma_def Cond_def Dot_def Cast_def CastInit_def
  Index_def Offsetof_def Paren_def PostDec_def PostInc_def VaArg_def

lemma take3: "3 \<le> length xs \<Longrightarrow> take 3 xs = [xs ! 0, xs ! 1, xs ! 2]"
  by (cases xs; cases "tl xs"; cases "tl (tl xs)") (auto simp add: numeral_3_eq_3)

lemma append_non_nil_Nil [simp]: "append_non_nil lst [] = lst"
  by (simp add: append_non_nil_def)

lemma GetChildren_shape:
  "GetChildren x =
    (if Expr_Op x = Arrow \<or> Expr_Op x = Dot \<or> Expr_Op x = Paren \<or> Expr_Op x = PostDec \<or> Expr_Op x = PostInc
       then Inr (text_children x @ [Ptr Expr (Expr_Left x)])
     else if Expr_Op x = Call then Inr (append_non_nil (text_children x @ [Ptr Expr (Expr_Left x)]) (Expr_List x))
     else if Expr_Op x = Comma then Inr (append_non_nil (text_children x) (Expr_List x))
     else if Expr_Op x = Cond then
       (if 3 \<le> length (Expr_List x) then Inr (text_children x @ map (Ptr Expr) (take 3 (Expr_List x)))
        else Inl Index_out_of_range)
     else if Expr_Op x = Cast \<or> Expr_Op x = CastInit then Inr (text_children x @ [Ptr Type (Expr_Type x)])
     else if Expr_Op x = Index then Inr (text_children x @ [Ptr Expr (Expr_Left x), Ptr Expr (Expr_Right x)])
     else if Expr_Op x = Offsetof then Inr (text_children x @ [Ptr Type (Expr_Type x), Ptr Expr (Expr_Left x)])
     else if Expr_Op x = VaArg then Inr (text_children x @ [Ptr Expr (Expr_Left x), Ptr Type (Expr_Type x)])
     else Inr (append_non_nil (text_children x @ opt Type (Expr_Type x) @ opt Expr (Expr_Left x) @ opt Expr (Expr_Right x))
                (Expr_List x)))"
  by (simp add: GetChildren_def text_children_def Let_def switch_ops opt_def index_def take3)

lemma is_nil_Ptr: "is_nil (Ptr k p) \<longleftrightarrow> p = None"
  by (cases p) simp_all

lemma la_app: "list_all (\<lambda>y. \<not> is_nil y) (append_non_nil lst es) = list_all (\<lambda>y. \<not> is_nil y) lst"
  by (auto simp add: append_non_nil_def list_all_iff is_nil_Ptr)

lemma la_opt: "list_all (\<lambda>y. \<not> is_nil y) (opt k p)"
  by (simp add: opt_def is_nil_Ptr)

lemma la_tc: "list_all (\<lambda>y. \<not> is_nil y) (text_children x) = texts_not_nil x"
  by (auto simp add: text_children_def texts_not_nil_def)

lemma la_map: "list_all (\<lambda>y. \<not> is_nil y) (map (Ptr k) ps) = list_all (\<lambda>e. e \<noteq> None) ps"
  by (simp add: list_all_iff is_nil_Ptr)

text \<open>
  Claim C3: for an \<^verbatim>\<open>Arrow\<close> or \<^verbatim>\<open>Dot\<close> node \<^verbatim>\<open>GetChildren\<close> returns exactly one child,
  the left operand, and never the text of the member name. The code appends the text
  before the switch, whatever the operator: for \<^verbatim>\<open>p->field\<close> it returns the name and then
  the left operand.
\<close>

theorem GetChildren_Arrow_returns_text:
  "Expr_Op arrow_node = Arrow
   \<and> GetChildren arrow_node = Inr [Ptr SymbolLiteral (Some 3), Ptr Expr (Some 2)]
   \<and> Expr_Text arrow_node = Ptr SymbolLiteral (Some 3)"
  by (simp add: GetChildren_shape arrow_node_def leaf_expr_def text_children_def)

text \<open>
  Claim C3, amended: for an \<^verbatim>\<open>Arrow\<close> or \<^verbatim>\<open>Dot\<close> node \<^verbatim>\<open>GetChildren\<close> returns the text
  payload (when it is set) and the text list, followed by exactly one operand, the left
  one.
\<close>

theorem GetChildren_Arrow_Dot:
  "Expr_Op x = Arrow \<or> Expr_Op x = Dot \<Longrightarrow>
     GetChildren x = Inr (text_children x @ [Ptr Expr (Expr_Left x)])"
  by (elim disjE) (simp_all add: GetChildren_shape switch_ops)

theorem GetChildren_Arrow_Dot_witness:
  "(Expr_Op arrow_node = Arrow \<or> Expr_Op arrow_node = Dot)
   \<and> GetChildren arrow_node = Inr (text_children arrow_node @ [Ptr Expr (Expr_Left arrow_node)])
   \<and> text_children arrow_node @ [Ptr Expr (Expr_Left arrow_node)]
       = [Ptr SymbolLiteral (Some 3), Ptr Expr (Some 2)]"
proof -
  have op: "Expr_Op arrow_node = Arrow \<or> Expr_Op arrow_node = Dot"
    by (simp add: arrow_node_def)
  from GetChildren_Arrow_Dot [OF op] op show ?thesis
    by (simp add: arrow_node_def leaf_expr_def text_children_def)
qed

text \<open>
  Claim C4: the sequence that \<^verbatim>\<open>GetChildren\<close> returns never contains a nil element,
  for every operator and whichever slots are unset. The cases of the switch other than
  the default one append their slots without a test: an \<^verbatim>\<open>Arrow\<close> with no left operand
  returns a nil \<^verbatim>\<open>*Expr\<close>.
\<close>

theorem GetChildren_returns_nil:
  "GetChildren arrow_no_left = Inr [Ptr SymbolLiteral (Some 3), Ptr Expr None]
   \<and> is_nil (Ptr Expr None)"
  by (simp add: GetChildren_shape arrow_no_left_def leaf_expr_def text_children_def)

text \<open>
  Claim C4, amended: the sequence that \<^verbatim>\<open>GetChildren\<close> returns contains no nil element
  exactly when the text payloads hold no nil pointer and the slots that the case of the
  operator appends without a test are set (the left operand for \<^verbatim>\<open>Arrow\<close>, \<^verbatim>\<open>Call\<close>,
  \<^verbatim>\<open>Dot\<close>, \<^verbatim>\<open>Paren\<close>, \<^verbatim>\<open>PostDec\<close>, \<^verbatim>\<open>PostInc\<close>; the type for \<^verbatim>\<open>Cast\<close>, \<^verbatim>\<open>CastInit\<close>; left
  and right for \<^verbatim>\<open>Index\<close>; type and left for \<^verbatim>\<open>Offsetof\<close>, \<^verbatim>\<open>VaArg\<close>; the first three
  list elements for \<^verbatim>\<open>Cond\<close>). In the default case and for \<^verbatim>\<open>Comma\<close>, unset type, left and
  right operands and nil list elements are skipped.
\<close>

theorem GetChildren_no_nil_iff:
  "GetChildren x = Inr ys \<Longrightarrow>
     list_all (\<lambda>y. \<not> is_nil y) ys \<longleftrightarrow> (texts_not_nil x \<and> required_slots_set x)"
  unfolding GetChildren_shape required_slots_set_def Let_def
  by (auto simp add: la_app la_opt la_tc la_map is_nil_Ptr switch_ops split: if_splits)

theorem GetChildren_no_nil_iff_witness:
  "GetChildren cond_plain = Inr [Ptr Expr (Some 2), Ptr Expr (Some 3), Ptr Expr (Some 4)]
   \<and> (list_all (\<lambda>y. \<not> is_nil y) [Ptr Expr (Some 2), Ptr Expr (Some 3), Ptr Expr (Some 4)]
        \<longleftrightarrow> (texts_not_nil cond_plain \<and> required_slots_set cond_plain))
   \<and> texts_not_nil cond_plain \<and> required_slots_set cond_plain"
proof -
  have g: "GetChildren cond_plain = Inr [Ptr Expr (Some 2), Ptr Expr (Some 3), Ptr Expr (Some 4)]"
    by (simp add: GetChildren_shape cond_plain_def leaf_expr_def text_children_def switch_ops)
  from GetChildren_no_nil_iff [OF g] g show ?thesis by simp
qed

text \<open>
  Claim C5: for a \<^verbatim>\<open>Cond\<close> node whose list holds the three branches, \<^verbatim>\<open>GetChildren\<close>
  returns exactly three children, in the order condition, then-branch, else-branch. A
  \<^verbatim>\<open>Cond\<close> node is \<^verbatim>\<open>x ? y : z\<close> with \<^verbatim>\<open>List = {x, y, z}\<close>; the text and the texts are
  for other operators (names, numbers, strings, \<^verbatim>\<open>Arrow\<close>, \<^verbatim>\<open>Dot\<close>) and are unset in it.
\<close>

theorem GetChildren_Cond:
  "Expr_Op x = Cond \<Longrightarrow> 3 \<le> length (Expr_List x) \<Longrightarrow> Expr_Text x = NilSyntax \<Longrightarrow>
   Expr_Texts x = [] \<Longrightarrow>
     GetChildren x =
       Inr [Ptr Expr (Expr_List x ! 0), Ptr Expr (Expr_List x ! 1), Ptr Expr (Expr_List x ! 2)]"
  by (simp add: GetChildren_shape take3 switch_ops text_children_def)

theorem GetChildren_Cond_witness:
  "Expr_Op cond_plain = Cond \<and> 3 \<le> length (Expr_List cond_plain)
   \<and> Expr_Text cond_plain = NilSyntax \<and> Expr_Texts cond_plain = []
   \<and> GetChildren cond_plain = Inr [Ptr Expr (Some 2), Ptr Expr (Some 3), Ptr Expr (Some 4)]"
proof -
  have op: "Expr_Op cond_plain = Cond" and len: "3 \<le> length (Expr_List cond_plain)"
    and no_text: "Expr_Text cond_plain = NilSyntax" and no_texts: "Expr_Texts cond_plain = []"
    by (simp_all add: cond_plain_def leaf_expr_def)
  from GetChildren_Cond [OF op len no_text no_texts] op len no_text no_texts show ?thesis
    by (simp add: cond_plain_def)
qed

section \<open>Properties of the traversal\<close>

subsection \<open>A returning walk is a visit\<close>

lemma walk_each_visit_all:
  assumes step: "\<And>y S u S' u'. f y (S, u) = Some (Inr (S', u')) \<Longrightarrow> visit h b a y S u S' u'"
  shows "walk_each f ys (S, u) = Some (Inr (S', u')) \<Longrightarrow> visit_all h b a ys S u S' u'"
proof (induction ys arbitrary: S u)
  case Nil
  then show ?case by (simp add: visit_visit_all.all_nil)
next
  case (Cons y ys)
  from Cons.prems obtain T v where fy: "f y (S, u) = Some (Inr (T, v))"
    and rest: "walk_each f ys (T, v) = Some (Inr (S', u'))"
    by (auto split: option.splits sum.splits)
  from step [OF fy] Cons.IH [OF rest] show ?case
    by (rule visit_visit_all.all_cons)
qed

lemma walk_visit:
  "walk n h x b a (S, u) = Some (Inr (S', u')) \<Longrightarrow> visit h b a x S u S' u'"
proof (induction n arbitrary: x S u S' u')
  case 0
  then show ?case by simp
next
  case (Suc n)
  show ?case
  proof (cases "x = NilSyntax \<or> x \<in> S")
    case True
    with Suc.prems have "S' = S" "u' = u" by (auto split: if_splits)
    with True show ?thesis by (simp add: visit_visit_all.skip)
  next
    case False
    with Suc.prems obtain ys T v where wc: "walk_cases h x = Inr ys"
      and each: "walk_each (\<lambda>y. walk n h y b a) ys (insert x S, b x u) = Some (Inr (T, v))"
      and res: "S' = T" "u' = a x v"
      by (auto simp add: Let_def split: sum.splits option.splits)
    have "visit_all h b a ys (insert x S) (b x u) T v"
      using each by (rule walk_each_visit_all [rotated]) (rule Suc.IH)
    with False wc res show ?thesis
      by (auto intro: visit_visit_all.enter)
  qed
qed

lemma visit_mono:
  "visit h b a x S u S' u' \<Longrightarrow> S \<subseteq> S'"
  "visit_all h b a ys S u S' u' \<Longrightarrow> S \<subseteq> S'"
  by (induction rule: visit_visit_all.inducts) auto

lemma enters_append [simp]: "enters (es @ fs) = enters es @ enters fs"
  by (induction es rule: enters.induct) simp_all

lemma exits_append [simp]: "exits (es @ fs) = exits es @ exits fs"
  by (induction es rule: exits.induct) simp_all

lemma events_of_refl: "events_of b a S u S u"
  unfolding events_of_def by (auto intro: exI [of _ "[]"])

lemma events_of_trans:
  assumes "events_of b a S u T v" and "events_of b a T v S' u'"
  shows "events_of b a S u S' u'"
proof -
  from assms(1) obtain es where ST: "S \<subseteq> T" and es: "v = fold (call b a) es u"
    "distinct (enters es)" "set (enters es) = T - S" "distinct (exits es)" "set (exits es) = T - S"
    unfolding events_of_def by blast
  from assms(2) obtain fs where TS: "T \<subseteq> S'" and fs: "u' = fold (call b a) fs v"
    "distinct (enters fs)" "set (enters fs) = S' - T" "distinct (exits fs)" "set (exits fs) = S' - T"
    unfolding events_of_def by blast
  have "u' = fold (call b a) (es @ fs) u" using es(1) fs(1) by simp
  moreover have "distinct (enters (es @ fs))" using es fs by auto
  moreover have "set (enters (es @ fs)) = S' - S" using es fs ST TS by auto
  moreover have "distinct (exits (es @ fs))" using es fs by auto
  moreover have "set (exits (es @ fs)) = S' - S" using es fs ST TS by auto
  ultimately have "\<exists>evs. u' = fold (call b a) evs u \<and> distinct (enters evs) \<and> set (enters evs) = S' - S
        \<and> distinct (exits evs) \<and> set (exits evs) = S' - S"
    by (intro exI [of _ "es @ fs"] conjI)
  with ST TS show ?thesis unfolding events_of_def by simp
qed

lemma events_of_enter:
  assumes "x \<notin> S" and "events_of b a (insert x S) (b x u) S' u'"
  shows "events_of b a S u S' (a x u')"
proof -
  from assms(2) obtain es where sub: "insert x S \<subseteq> S'" and es: "u' = fold (call b a) es (b x u)"
    "distinct (enters es)" "set (enters es) = S' - insert x S" "distinct (exits es)" "set (exits es) = S' - insert x S"
    unfolding events_of_def by blast
  let ?evs = "Enter x # es @ [Exit x]"
  have "a x u' = fold (call b a) ?evs u" using es(1) by simp
  moreover have "distinct (enters ?evs)" using es by auto
  moreover have "set (enters ?evs) = S' - S" using es sub assms(1) by auto
  moreover have "distinct (exits ?evs)" using es by auto
  moreover have "set (exits ?evs) = S' - S" using es sub assms(1) by auto
  ultimately have "\<exists>evs. a x u' = fold (call b a) evs u \<and> distinct (enters evs) \<and> set (enters evs) = S' - S
        \<and> distinct (exits evs) \<and> set (exits evs) = S' - S"
    by (intro exI [of _ ?evs] conjI)
  with sub show ?thesis unfolding events_of_def by simp
qed

lemma visit_events:
  "visit h b a x S u S' u' \<Longrightarrow> events_of b a S u S' u'"
  "visit_all h b a ys S u S' u' \<Longrightarrow> events_of b a S u S' u'"
proof (induction rule: visit_visit_all.inducts)
  case (skip x S u)
  show ?case by (rule events_of_refl)
next
  case (enter x S ys u S' u')
  then show ?case by (simp add: events_of_enter)
next
  case (all_nil S u)
  show ?case by (rule events_of_refl)
next
  case (all_cons y S u T v ys S' u')
  then have "events_of b a S u T v" "events_of b a T v S' u'" by simp_all
  then show ?case by (rule events_of_trans)
qed

lemma visit_closed:
  "visit h b a x S u S' u' \<Longrightarrow> NilSyntax \<in> S \<Longrightarrow> x \<in> S' \<and> closed_in h S S'"
  "visit_all h b a ys S u S' u' \<Longrightarrow> NilSyntax \<in> S \<Longrightarrow> set ys \<subseteq> S' \<and> closed_in h S S'"
proof (induction rule: visit_visit_all.inducts)
  case (skip x S u)
  then show ?case by (auto simp add: closed_in_def)
next
  case (enter x S ys u S' u')
  then have "set ys \<subseteq> S'" "closed_in h (insert x S) S'" by auto
  moreover from enter have "insert x S \<subseteq> S'" by (auto dest: visit_mono)
  moreover from enter have "walk_cases h x = Inr ys" by simp
  ultimately show ?case by (auto simp add: closed_in_def)
next
  case (all_nil S u)
  then show ?case by (simp add: closed_in_def)
next
  case (all_cons y S u T v ys S' u')
  from all_cons have ST: "S \<subseteq> T" and TS: "T \<subseteq> S'" by (auto dest: visit_mono)
  with all_cons have y: "y \<in> T" and c1: "closed_in h S T"
    and ys: "set ys \<subseteq> S'" and c2: "closed_in h T S'" by auto
  have "closed_in h S S'"
    unfolding closed_in_def
  proof
    fix v assume v: "v \<in> S' - S"
    show "\<exists>zs. walk_cases h v = Inr zs \<and> set zs \<subseteq> S'"
    proof (cases "v \<in> T")
      case True
      with v c1 obtain zs where "walk_cases h v = Inr zs" "set zs \<subseteq> T"
        unfolding closed_in_def by blast
      with TS show ?thesis by blast
    next
      case False
      with v c2 show ?thesis unfolding closed_in_def by blast
    qed
  qed
  with y ys TS show ?case by auto
qed

subsection \<open>What a walk from the initial \<^verbatim>\<open>seen\<close> has seen\<close>

lemma reachable_not_nil: "y \<in> reachable h x \<Longrightarrow> y \<notin> nil_seen"
  by (induction rule: reachable.induct) auto

lemma reachable_trans:
  "z \<in> reachable h y \<Longrightarrow> y \<in> reachable h x \<Longrightarrow> z \<in> reachable h x"
proof (induction rule: reachable.induct)
  case root
  then show ?case by simp
next
  case (child v ys z)
  then have "v \<in> reachable h x" by simp
  then show ?case using child.hyps(2,3,4) by (rule reachable.child)
qed

lemma reachable_child_subset:
  assumes "x \<notin> nil_seen" "walk_cases h x = Inr ys" "y \<in> set ys"
  shows "reachable h y \<subseteq> reachable h x"
proof
  fix z assume z: "z \<in> reachable h y"
  then have "y \<notin> nil_seen" by (induction rule: reachable.induct) auto
  with assms have "y \<in> reachable h x" by (auto intro: reachable.intros)
  with z show "z \<in> reachable h x" by (rule reachable_trans)
qed

lemma visit_sound:
  "visit h b a x S u S' u' \<Longrightarrow> nil_seen \<subseteq> S \<Longrightarrow> S' - S \<subseteq> reachable h x"
  "visit_all h b a ys S u S' u' \<Longrightarrow> nil_seen \<subseteq> S \<Longrightarrow> S' - S \<subseteq> (\<Union>y\<in>set ys. reachable h y)"
proof (induction rule: visit_visit_all.inducts)
  case (skip x S u)
  then show ?case by simp
next
  case (enter x S ys u S' u')
  then have x: "x \<notin> nil_seen" by auto
  from enter have wc: "walk_cases h x = Inr ys" by simp
  from enter have "S' - insert x S \<subseteq> (\<Union>y\<in>set ys. reachable h y)" by auto
  also have "\<dots> \<subseteq> reachable h x"
    using reachable_child_subset [OF x wc] by auto
  finally show ?case using x by (auto intro: reachable.root)
next
  case (all_nil S u)
  then show ?case by simp
next
  case (all_cons y S u T v ys S' u')
  from all_cons have "S \<subseteq> T" by (auto dest: visit_mono)
  with all_cons have "T - S \<subseteq> reachable h y" "S' - T \<subseteq> (\<Union>y\<in>set ys. reachable h y)" by auto
  then show ?case by auto
qed

lemma visit_complete:
  assumes "visit h b a root nil_seen u S' u'"
  shows "reachable h root \<subseteq> S' - nil_seen"
proof
  have nil: "NilSyntax \<in> nil_seen" by (simp add: nil_seen_def)
  from visit_closed(1) [OF assms nil] have r: "root \<in> S'" and c: "closed_in h nil_seen S'" by auto
  fix y assume "y \<in> reachable h root"
  then show "y \<in> S' - nil_seen"
  proof (induction rule: reachable.induct)
    case root
    with r show ?case by simp
  next
    case (child x ys y)
    then have "x \<in> S' - nil_seen" by simp
    with c obtain zs where "walk_cases h x = Inr zs" "set zs \<subseteq> S'"
      unfolding closed_in_def by blast
    with child.hyps(2,3,4) show ?case by auto
  qed
qed

lemma visit_reachable:
  assumes "visit h b a root nil_seen u S' u'"
  shows "S' - nil_seen = reachable h root"
proof -
  have "S' - nil_seen \<subseteq> reachable h root" using assms by (rule visit_sound(1)) simp
  with visit_complete [OF assms] show ?thesis by simp
qed

lemma Walk_returnsD:
  "Walk n h x b a u = Some (Inr u') \<Longrightarrow> \<exists>S. walk n h x b a (nil_seen, u) = Some (Inr (S, u'))"
  unfolding Walk_def
  apply (cases "walk n h x b a (nil_seen, u)")
   apply simp
  subgoal for r
    apply (cases r)
     apply simp
    apply simp
    apply (metis prod.collapse)
    done
  done

lemma Walk_events:
  assumes "Walk n h root b a u = Some (Inr u')"
  shows "\<exists>evs. u' = fold (call b a) evs u \<and> distinct (enters evs) \<and> set (enters evs) = reachable h root
        \<and> distinct (exits evs) \<and> set (exits evs) = reachable h root"
proof -
  from assms obtain S' where "walk n h root b a (nil_seen, u) = Some (Inr (S', u'))"
    by (blast dest: Walk_returnsD)
  then have v: "visit h b a root nil_seen u S' u'" by (rule walk_visit)
  from visit_events(1) [OF v] have "\<exists>evs. u' = fold (call b a) evs u \<and> distinct (enters evs) \<and> set (enters evs) = S' - nil_seen
        \<and> distinct (exits evs) \<and> set (exits evs) = S' - nil_seen"
    unfolding events_of_def by simp
  then show ?thesis unfolding visit_reachable [OF v] .
qed

lemma fold_record_enters: "fold (call record_call (\<lambda>_ u. u)) evs t = t @ enters evs"
  by (induction evs arbitrary: t rule: enters.induct) (simp_all add: record_call_def)

lemma fold_record_exits: "fold (call (\<lambda>_ u. u) record_call) evs t = t @ exits evs"
  by (induction evs arbitrary: t rule: exits.induct) (simp_all add: record_call_def)

lemma Preorder_visits:
  assumes "Preorder n h root record_call [] = Some (Inr t)"
  shows "distinct t \<and> set t = reachable h root"
proof -
  from assms have "Walk n h root record_call (\<lambda>_ u. u) [] = Some (Inr t)"
    by (simp add: Preorder_def)
  from Walk_events [OF this] show ?thesis by (auto simp add: fold_record_enters)
qed

lemma Postorder_visits:
  assumes "Postorder n h root record_call [] = Some (Inr t)"
  shows "distinct t \<and> set t = reachable h root"
proof -
  from assms have "Walk n h root (\<lambda>_ u. u) record_call [] = Some (Inr t)"
    by (simp add: Postorder_def)
  from Walk_events [OF this] show ?thesis by (auto simp add: fold_record_exits)
qed

subsection \<open>The depth of the recursion\<close>

lemma walk_each_fuel:
  assumes "\<And>y s r. f y s = Some r \<Longrightarrow> g y s = Some r"
  shows "walk_each f ys s = Some r \<Longrightarrow> walk_each g ys s = Some r"
proof (induction ys arbitrary: s)
  case Nil
  then show ?case by simp
next
  case (Cons y ys)
  show ?case
  proof (cases "f y s")
    case None
    with Cons.prems show ?thesis by simp
  next
    case (Some q)
    then have g: "g y s = Some q" by (rule assms)
    show ?thesis
    proof (cases q)
      case (Inl e)
      with Some Cons.prems have "r = Inl e" by simp
      with Inl g show ?thesis by simp
    next
      case (Inr s')
      with Some Cons.prems have "walk_each f ys s' = Some r" by simp
      then have "walk_each g ys s' = Some r" by (rule Cons.IH)
      with Inr g show ?thesis by simp
    qed
  qed
qed

lemma walk_Suc_fuel:
  "walk n h x b a s = Some r \<Longrightarrow> walk (Suc n) h x b a s = Some r"
proof (induction n arbitrary: x s r)
  case 0
  then show ?case by simp
next
  case (Suc n)
  have each: "\<And>ys t q. walk_each (\<lambda>y. walk n h y b a) ys t = Some q \<Longrightarrow>
      walk_each (\<lambda>y. walk (Suc n) h y b a) ys t = Some q"
    by (rule walk_each_fuel [rotated], assumption) (rule Suc.IH)
  show ?case
  proof (cases "x = NilSyntax \<or> x \<in> fst s")
    case True
    with Suc.prems show ?thesis by (auto split: if_splits)
  next
    case False
    show ?thesis
    proof (cases "walk_cases h x")
      case (Inl e)
      with False Suc.prems show ?thesis by simp
    next
      case (Inr ys)
      show ?thesis
      proof (cases "walk_each (\<lambda>y. walk n h y b a) ys (insert x (fst s), b x (snd s))")
        case None
        with False Inr Suc.prems show ?thesis by (simp add: Let_def)
      next
        case (Some q)
        from each [OF Some] Some False Inr Suc.prems show ?thesis
          by (simp add: Let_def)
      qed
    qed
  qed
qed

lemma walk_fuel_mono:
  "walk n h x b a s = Some r \<Longrightarrow> n \<le> m \<Longrightarrow> walk m h x b a s = Some r"
  by (induction m) (auto simp add: le_Suc_eq dest: walk_Suc_fuel simp del: walk.simps)

lemma reachable_children:
  assumes "x \<in> reachable h root" "walk_cases h x = Inr ys" "y \<in> set ys"
  shows "y \<in> reachable h root \<union> nil_seen"
  using assms by (cases "y \<in> nil_seen") (auto intro: reachable.child)

lemma walk_each_terminates:
  assumes step: "\<And>y T v. y \<in> set ys \<Longrightarrow> S \<subseteq> T \<Longrightarrow> walk n h y b a (T, v) \<noteq> None"
  shows "set zs \<subseteq> set ys \<Longrightarrow> S \<subseteq> T \<Longrightarrow> walk_each (\<lambda>y. walk n h y b a) zs (T, v) \<noteq> None"
proof (induction zs arbitrary: T v)
  case Nil
  then show ?case by simp
next
  case (Cons z zs)
  from Cons.prems have z: "z \<in> set ys" and zs: "set zs \<subseteq> set ys" by auto
  from step [OF z Cons.prems(2)] obtain q where q: "walk n h z b a (T, v) = Some q" by blast
  show ?case
  proof (cases q)
    case (Inl e)
    with q show ?thesis by simp
  next
    case (Inr s')
    obtain T' v' where s': "s' = (T', v')" by (cases s')
    with q Inr have "visit h b a z T v T' v'" by (simp add: walk_visit)
    then have "T \<subseteq> T'" by (rule visit_mono)
    with Cons.prems(2) have "S \<subseteq> T'" by simp
    from Cons.IH [OF zs this] q Inr s' show ?thesis by simp
  qed
qed

lemma walk_terminates:
  assumes fin: "finite (reachable h root)"
  shows "nil_seen \<subseteq> S \<Longrightarrow> x \<in> reachable h root \<union> nil_seen \<Longrightarrow> card (reachable h root - S) < n \<Longrightarrow>
     walk n h x b a (S, u) \<noteq> None"
proof (induction n arbitrary: x S u)
  case 0
  then show ?case by simp
next
  case (Suc n)
  show ?case
  proof (cases "x = NilSyntax \<or> x \<in> S")
    case True
    then show ?thesis by auto
  next
    case False
    with Suc.prems have x: "x \<in> reachable h root" "x \<notin> S" by auto
    show ?thesis
    proof (cases "walk_cases h x")
      case (Inl e)
      with False show ?thesis by simp
    next
      case (Inr ys)
      have "reachable h root - insert x S \<subset> reachable h root - S" using x by auto
      with fin have less: "card (reachable h root - insert x S) < card (reachable h root - S)"
        by (intro psubset_card_mono) auto
      have "walk_each (\<lambda>y. walk n h y b a) ys (insert x S, b x u) \<noteq> None"
      proof (rule walk_each_terminates [where ys = ys and S = "insert x S"])
        fix y T v assume y: "y \<in> set ys" and T: "insert x S \<subseteq> T"
        from x(1) Inr y have "y \<in> reachable h root \<union> nil_seen" by (rule reachable_children)
        moreover from T Suc.prems(1) have "nil_seen \<subseteq> T" by auto
        moreover have "card (reachable h root - T) \<le> card (reachable h root - insert x S)"
          using fin T by (intro card_mono) auto
        with less Suc.prems(3) have "card (reachable h root - T) < n" by simp
        ultimately show "walk n h y b a (T, v) \<noteq> None" by (intro Suc.IH)
      qed simp_all
      then obtain q where "walk_each (\<lambda>y. walk n h y b a) ys (insert x S, b x u) = Some q" by blast
      with False Inr show ?thesis by (cases q) (simp_all add: Let_def)
    qed
  qed
qed

lemma Walk_None: "Walk n h x b a u = None \<longleftrightarrow> walk n h x b a (nil_seen, u) = None"
  unfolding Walk_def
  apply (cases "walk n h x b a (nil_seen, u)")
   apply simp
  subgoal for r by (cases r) simp_all
  done

lemma Walk_terminates:
  assumes "finite (reachable h root)" "card (reachable h root) < n"
  shows "Walk n h root b a u \<noteq> None"
proof -
  have "root \<in> reachable h root \<union> nil_seen" by (auto intro: reachable.root)
  moreover have "card (reachable h root - nil_seen) \<le> card (reachable h root)"
    using assms(1) by (intro card_mono) auto
  ultimately have "walk n h root b a (nil_seen, u) \<noteq> None"
    using assms by (intro walk_terminates) auto
  then show ?thesis by (simp add: Walk_None)
qed

lemma Walk_fuel_mono:
  assumes "Walk n h x b a u = Some r" "n \<le> m"
  shows "Walk m h x b a u = Some r"
proof -
  from assms(1) obtain q where q: "walk n h x b a (nil_seen, u) = Some q"
    by (cases "walk n h x b a (nil_seen, u)") (simp_all add: Walk_def)
  then have "walk m h x b a (nil_seen, u) = Some q" using assms(2) by (rule walk_fuel_mono)
  with q assms(1) show ?thesis by (simp add: Walk_def)
qed

lemma Walk_stable:
  assumes fin: "finite (reachable h root)" and m: "card (reachable h root) < m"
  shows "Walk m h root b a u = Walk (Suc (card (reachable h root))) h root b a u"
proof (cases "Walk (Suc (card (reachable h root))) h root b a u")
  case None
  moreover have "Walk (Suc (card (reachable h root))) h root b a u \<noteq> None"
    using fin by (rule Walk_terminates) simp
  ultimately show ?thesis by contradiction
next
  case (Some r)
  from m have "Suc (card (reachable h root)) \<le> m" by simp
  with Some have "Walk m h root b a u = Some r" by (rule Walk_fuel_mono)
  with Some show ?thesis by simp
qed

lemma walk_cases_no_case: "\<not> has_case k \<Longrightarrow> walk_cases h (Ptr k p) = Inl (Unexpected_type k)"
  by (cases k) simp_all

lemma Walk_returns_cases:
  assumes "Walk n h root b a u = Some (Inr u')" "x \<in> reachable h root"
  shows "\<exists>ys. walk_cases h x = Inr ys"
proof -
  from assms(1) obtain S' where "walk n h root b a (nil_seen, u) = Some (Inr (S', u'))"
    by (blast dest: Walk_returnsD)
  then have v: "visit h b a root nil_seen u S' u'" by (rule walk_visit)
  have "NilSyntax \<in> nil_seen" by (simp add: nil_seen_def)
  with v have "closed_in h nil_seen S'" by (simp add: visit_closed)
  moreover from assms(2) visit_complete [OF v] have "x \<in> S' - nil_seen" by blast
  ultimately show ?thesis unfolding closed_in_def by blast
qed

subsection \<open>The example heaps\<close>

lemma reachable_cast_heap:
  "reachable cast_heap (Ptr Expr (Some 0)) \<subseteq>
     {Ptr Expr (Some 0), Ptr Expr (Some 1), Ptr SymbolLiteral (Some 0), Ptr Type (Some 0), Ptr Decl (Some 0)}"
proof
  fix y assume "y \<in> reachable cast_heap (Ptr Expr (Some 0))"
  then show "y \<in> {Ptr Expr (Some 0), Ptr Expr (Some 1), Ptr SymbolLiteral (Some 0), Ptr Type (Some 0), Ptr Decl (Some 0)}"
  proof (induction rule: reachable.induct)
    case root
    then show ?case by simp
  next
    case (child x ys y)
    then show ?case
      by (auto simp add: cast_heap_def leaf_expr_def nil_seen_def Let_def)
  qed
qed

lemma finite_cast_heap: "finite (reachable cast_heap (Ptr Expr (Some 0)))"
  by (rule finite_subset [OF reachable_cast_heap]) simp

lemma reachable_prefix_heap:
  "reachable prefix_heap (Ptr Expr (Some 0)) \<subseteq> {Ptr Expr (Some 0), Ptr Prefix (Some 0)}"
proof
  fix y assume "y \<in> reachable prefix_heap (Ptr Expr (Some 0))"
  then show "y \<in> {Ptr Expr (Some 0), Ptr Prefix (Some 0)}"
  proof (induction rule: reachable.induct)
    case root
    then show ?case by simp
  next
    case (child x ys y)
    then show ?case
      by (auto simp add: prefix_heap_def cast_heap_def leaf_expr_def nil_seen_def Let_def)
  qed
qed

lemma finite_prefix_heap: "finite (reachable prefix_heap (Ptr Expr (Some 0)))"
  by (rule finite_subset [OF reachable_prefix_heap]) simp

lemma prefix_reachable: "Ptr Prefix (Some 0) \<in> reachable prefix_heap (Ptr Expr (Some 0))"
proof (rule reachable.child)
  show "Ptr Expr (Some 0) \<in> reachable prefix_heap (Ptr Expr (Some 0))"
    by (rule reachable.root) (simp add: nil_seen_def)
  show "walk_cases prefix_heap (Ptr Expr (Some 0)) =
     Inr [Ptr Expr None, NilSyntax, Ptr Expr None, Ptr Prefix (Some 0), Ptr Type None, Ptr Init None]"
    by (simp add: prefix_heap_def cast_heap_def leaf_expr_def)
  show "Ptr Prefix (Some 0) \<in> set [Ptr Expr None, NilSyntax, Ptr Expr None, Ptr Prefix (Some 0), Ptr Type None, Ptr Init None]"
    by simp
  show "Ptr Prefix (Some 0) \<notin> nil_seen" by (simp add: nil_seen_def)
qed

lemma Walk_cast_heap:
  "Walk 6 cast_heap (Ptr Expr (Some 0)) record_enter record_exit [] =
     Some (Inr [Enter (Ptr Expr (Some 0)), Enter (Ptr Expr (Some 1)),
                Enter (Ptr SymbolLiteral (Some 0)), Exit (Ptr SymbolLiteral (Some 0)),
                Exit (Ptr Expr (Some 1)), Enter (Ptr Type (Some 0)), Enter (Ptr Decl (Some 0)),
                Exit (Ptr Decl (Some 0)), Exit (Ptr Type (Some 0)), Exit (Ptr Expr (Some 0))])"
  by code_simp

lemma Preorder_cast_heap:
  "Preorder 6 cast_heap (Ptr Expr (Some 0)) record_call [] =
     Some (Inr [Ptr Expr (Some 0), Ptr Expr (Some 1), Ptr SymbolLiteral (Some 0),
                Ptr Type (Some 0), Ptr Decl (Some 0)])"
  by code_simp

lemma Postorder_cast_heap:
  "Postorder 6 cast_heap (Ptr Expr (Some 0)) record_call [] =
     Some (Inr [Ptr SymbolLiteral (Some 0), Ptr Expr (Some 1), Ptr Decl (Some 0),
                Ptr Type (Some 0), Ptr Expr (Some 0)])"
  by code_simp


subsection \<open>The claims about the traversal\<close>

lemma walk_cases_descends: "walk_cases h x = Inr ys \<Longrightarrow> set ys = descends h x"
  by (induction h x rule: walk_cases.induct) (auto simp add: Let_def)

lemma descends_walk_cases: "y \<in> descends h x \<Longrightarrow> \<exists>ys. walk_cases h x = Inr ys \<and> y \<in> set ys"
  by (induction h x rule: walk_cases.induct) (auto simp add: Let_def)

lemma reachable_walk_reachable: "reachable h root = walk_reachable h root"
proof (intro set_eqI iffI)
  fix y assume "y \<in> reachable h root"
  then show "y \<in> walk_reachable h root"
  proof (induction rule: reachable.induct)
    case root
    then show ?case by (rule walk_reachable.start)
  next
    case (child x ys y)
    from child.hyps(2,3) have "y \<in> descends h x" by (simp add: walk_cases_descends)
    with child.IH show ?case using child.hyps(4) by (rule walk_reachable.slot)
  qed
next
  fix y assume "y \<in> walk_reachable h root"
  then show "y \<in> reachable h root"
  proof (induction rule: walk_reachable.induct)
    case start
    then show ?case by (rule reachable.root)
  next
    case (slot x y)
    from slot.hyps(2) obtain ys where "walk_cases h x = Inr ys" "y \<in> set ys"
      by (blast dest: descends_walk_cases)
    with slot.IH show ?case using slot.hyps(3) by (rule reachable.child)
  qed
qed

text \<open>
  Claim C1: on every finite graph, with sharing or cycles, \<^verbatim>\<open>Walk\<close> calls \<^verbatim>\<open>onEnter\<close> at
  most once for each node, and \<^verbatim>\<open>Preorder\<close> and \<^verbatim>\<open>Postorder\<close> call \<^verbatim>\<open>f\<close> exactly once for
  each node reachable from the root (through \<^verbatim>\<open>GetChildren\<close>, as the spec has it). The
  case of \<^verbatim>\<open>*Init\<close> in \<^verbatim>\<open>walk\<close> descends into the braced initializers and the expression,
  not into the prefixes that \<^verbatim>\<open>Init.GetChildren\<close> returns: for an initializer with one
  prefix, \<^verbatim>\<open>f\<close> is called on the initializer and never on the prefix.
\<close>

theorem Walk_skips_Prefix_of_Init:
  "Init_GetChildren (Inits init_heap 0) = [Ptr Prefix (Some 0)]
   \<and> Preorder 5 init_heap (Ptr Init (Some 0)) record_call [] = Some (Inr [Ptr Init (Some 0)])
   \<and> Postorder 5 init_heap (Ptr Init (Some 0)) record_call [] = Some (Inr [Ptr Init (Some 0)])"
proof (intro conjI)
  show "Init_GetChildren (Inits init_heap 0) = [Ptr Prefix (Some 0)]"
    by (simp add: Init_GetChildren_def init_heap_def)
  show "Preorder 5 init_heap (Ptr Init (Some 0)) record_call [] = Some (Inr [Ptr Init (Some 0)])"
    by code_simp
  show "Postorder 5 init_heap (Ptr Init (Some 0)) record_call [] = Some (Inr [Ptr Init (Some 0)])"
    by code_simp
qed

text \<open>
  Claim C1, amended: on every graph, with sharing or cycles, when \<^verbatim>\<open>Walk\<close> returns it has
  called \<^verbatim>\<open>onEnter\<close> once and \<^verbatim>\<open>onExit\<close> once for each node that can be reached from the
  root through the slots that the type switch of \<^verbatim>\<open>walk\<close> descends into, and for no other
  value; \<^verbatim>\<open>Preorder\<close> and \<^verbatim>\<open>Postorder\<close> call \<^verbatim>\<open>f\<close> exactly once for each of these nodes; and
  \<^verbatim>\<open>walk\<close> on a value that is in \<^verbatim>\<open>seen\<close> returns with \<^verbatim>\<open>seen\<close> and the state of the caller
  unchanged. The slots are those of \<open>descends\<close>: they leave out the prefixes of an
  initializer, which \<^verbatim>\<open>GetChildren\<close> returns.
\<close>

theorem Walk_visits_each_node_once:
  "(Walk n h root before after u = Some (Inr u') \<longrightarrow>
      (\<exists>evs. u' = fold (call before after) evs u
         \<and> distinct (enters evs) \<and> set (enters evs) = walk_reachable h root
         \<and> distinct (exits evs) \<and> set (exits evs) = walk_reachable h root))
   \<and> (Preorder n h root record_call [] = Some (Inr t) \<longrightarrow>
        distinct t \<and> set t = walk_reachable h root)
   \<and> (Postorder n h root record_call [] = Some (Inr t') \<longrightarrow>
        distinct t' \<and> set t' = walk_reachable h root)
   \<and> (x \<in> seen \<longrightarrow> walk (Suc n) h x before after (seen, u) = Some (Inr (seen, u)))"
proof (intro conjI impI)
  assume "Walk n h root before after u = Some (Inr u')"
  then have "\<exists>evs. u' = fold (call before after) evs u
         \<and> distinct (enters evs) \<and> set (enters evs) = reachable h root
         \<and> distinct (exits evs) \<and> set (exits evs) = reachable h root"
    by (rule Walk_events)
  then show "\<exists>evs. u' = fold (call before after) evs u
         \<and> distinct (enters evs) \<and> set (enters evs) = walk_reachable h root
         \<and> distinct (exits evs) \<and> set (exits evs) = walk_reachable h root"
    unfolding reachable_walk_reachable .
next
  assume "Preorder n h root record_call [] = Some (Inr t)"
  then have "distinct t \<and> set t = reachable h root" by (rule Preorder_visits)
  then show "distinct t" "set t = walk_reachable h root"
    unfolding reachable_walk_reachable by simp_all
next
  assume "Postorder n h root record_call [] = Some (Inr t')"
  then have "distinct t' \<and> set t' = reachable h root" by (rule Postorder_visits)
  then show "distinct t'" "set t' = walk_reachable h root"
    unfolding reachable_walk_reachable by simp_all
next
  assume "x \<in> seen"
  then show "walk (Suc n) h x before after (seen, u) = Some (Inr (seen, u))" by simp
qed

theorem Walk_visits_each_node_once_witness:
  "Walk 6 cast_heap (Ptr Expr (Some 0)) record_enter record_exit [] =
     Some (Inr [Enter (Ptr Expr (Some 0)), Enter (Ptr Expr (Some 1)),
                Enter (Ptr SymbolLiteral (Some 0)), Exit (Ptr SymbolLiteral (Some 0)),
                Exit (Ptr Expr (Some 1)), Enter (Ptr Type (Some 0)), Enter (Ptr Decl (Some 0)),
                Exit (Ptr Decl (Some 0)), Exit (Ptr Type (Some 0)), Exit (Ptr Expr (Some 0))])
   \<and> Preorder 6 cast_heap (Ptr Expr (Some 0)) record_call [] =
       Some (Inr [Ptr Expr (Some 0), Ptr Expr (Some 1), Ptr SymbolLiteral (Some 0),
                  Ptr Type (Some 0), Ptr Decl (Some 0)])
   \<and> Postorder 6 cast_heap (Ptr Expr (Some 0)) record_call [] =
       Some (Inr [Ptr SymbolLiteral (Some 0), Ptr Expr (Some 1), Ptr Decl (Some 0),
                  Ptr Type (Some 0), Ptr Expr (Some 0)])
   \<and> Ptr Expr (Some 1) \<in> insert (Ptr Expr (Some 1)) nil_seen
   \<and> walk_reachable cast_heap (Ptr Expr (Some 0)) =
       {Ptr Expr (Some 0), Ptr Expr (Some 1), Ptr SymbolLiteral (Some 0), Ptr Type (Some 0),
        Ptr Decl (Some 0)}
   \<and> walk (Suc 6) cast_heap (Ptr Expr (Some 1)) record_enter record_exit
        (insert (Ptr Expr (Some 1)) nil_seen, []) =
       Some (Inr (insert (Ptr Expr (Some 1)) nil_seen, []))"
proof -
  note once = Walk_visits_each_node_once [where n = 6 and h = cast_heap
      and root = "Ptr Expr (Some 0)" and before = record_enter and after = record_exit
      and u = "[]" and x = "Ptr Expr (Some 1)" and seen = "insert (Ptr Expr (Some 1)) nil_seen"
      and t = "[Ptr Expr (Some 0), Ptr Expr (Some 1), Ptr SymbolLiteral (Some 0),
                Ptr Type (Some 0), Ptr Decl (Some 0)]"
      and t' = "[Ptr SymbolLiteral (Some 0), Ptr Expr (Some 1), Ptr Decl (Some 0),
                 Ptr Type (Some 0), Ptr Expr (Some 0)]"]
  have mem: "Ptr Expr (Some 1) \<in> insert (Ptr Expr (Some 1)) nil_seen" by simp
  from once Preorder_cast_heap have
    "set [Ptr Expr (Some 0), Ptr Expr (Some 1), Ptr SymbolLiteral (Some 0),
          Ptr Type (Some 0), Ptr Decl (Some 0)] = walk_reachable cast_heap (Ptr Expr (Some 0))"
    by blast
  then have r: "walk_reachable cast_heap (Ptr Expr (Some 0)) =
       {Ptr Expr (Some 0), Ptr Expr (Some 1), Ptr SymbolLiteral (Some 0), Ptr Type (Some 0),
        Ptr Decl (Some 0)}"
    by simp
  from once mem have w: "walk (Suc 6) cast_heap (Ptr Expr (Some 1)) record_enter record_exit
        (insert (Ptr Expr (Some 1)) nil_seen, []) =
       Some (Inr (insert (Ptr Expr (Some 1)) nil_seen, []))"
    by blast
  from Walk_cast_heap Preorder_cast_heap Postorder_cast_heap mem r w show ?thesis
    by (intro conjI)
qed

text \<open>
  Claim C6: \<^verbatim>\<open>Walk\<close> terminates on every finite graph, with sharing or cycles, by the
  check of the visited set alone. Here: when the nodes reachable from the root are
  finitely many, every depth of recursion beyond their number gives a result, a return or
  a panic, and the same one.
\<close>

theorem Walk_terminates_on_finite_graph:
  "finite (reachable h root) \<Longrightarrow>
     \<exists>r. \<forall>m>card (reachable h root). Walk m h root before after u = Some r"
proof -
  assume fin: "finite (reachable h root)"
  let ?n = "Suc (card (reachable h root))"
  have "Walk ?n h root before after u \<noteq> None" using fin by (rule Walk_terminates) simp
  then obtain r where r: "Walk ?n h root before after u = Some r" by (cases "Walk ?n h root before after u") simp_all
  have "\<forall>m>card (reachable h root). Walk m h root before after u = Some r"
  proof (intro allI impI)
    fix m assume "card (reachable h root) < m"
    with fin have "Walk m h root before after u = Walk ?n h root before after u"
      by (rule Walk_stable)
    with r show "Walk m h root before after u = Some r" by simp
  qed
  then show ?thesis ..
qed

theorem Walk_terminates_on_finite_graph_witness:
  "finite (reachable cast_heap (Ptr Expr (Some 0)))
   \<and> (\<exists>r. \<forall>m>card (reachable cast_heap (Ptr Expr (Some 0))).
          Walk m cast_heap (Ptr Expr (Some 0)) record_enter record_exit [] = Some r)"
  using finite_cast_heap Walk_terminates_on_finite_graph [OF finite_cast_heap]
  by (rule conjI)

text \<open>
  Claim C9: when \<^verbatim>\<open>Walk\<close> meets a node of a type with no case in the type switch, it
  panics; it does not skip the node, and it does not return. Here: when such a node is
  reachable from the root, \<^verbatim>\<open>Walk\<close> never returns; on a finite graph, every depth of
  recursion beyond the number of nodes gives a panic; and \<^verbatim>\<open>walk\<close> on such a node that is not
  in \<^verbatim>\<open>seen\<close> panics with the unexpected type.
\<close>

theorem Walk_panics_on_type_without_case:
  assumes "Ptr k p \<in> reachable h root" and "\<not> has_case k"
  shows "Walk n h root before after u \<noteq> Some (Inr u')
    \<and> (finite (reachable h root) \<longrightarrow>
         (\<exists>e. \<forall>m>card (reachable h root). Walk m h root before after u = Some (Inl e)))
    \<and> (Ptr k p \<notin> seen \<longrightarrow>
         walk (Suc n) h (Ptr k p) before after (seen, u) = Some (Inl (Unexpected_type k)))"
proof (intro conjI impI)
  have no: "Walk m h root before after u \<noteq> Some (Inr v)" for m v
  proof
    assume "Walk m h root before after u = Some (Inr v)"
    then have "\<exists>ys. walk_cases h (Ptr k p) = Inr ys"
      using assms(1) by (rule Walk_returns_cases)
    with walk_cases_no_case [OF assms(2)] show False by simp
  qed
  show "Walk n h root before after u \<noteq> Some (Inr u')" by (rule no)
  show "\<exists>e. \<forall>m>card (reachable h root). Walk m h root before after u = Some (Inl e)"
    if fin: "finite (reachable h root)"
  proof (cases "Walk (Suc (card (reachable h root))) h root before after u")
    case None
    moreover have "Walk (Suc (card (reachable h root))) h root before after u \<noteq> None"
      using fin by (rule Walk_terminates) simp
    ultimately show ?thesis by contradiction
  next
    case (Some r)
    show ?thesis
    proof (cases r)
      case (Inl e)
      have "\<forall>m>card (reachable h root). Walk m h root before after u = Some (Inl e)"
      proof (intro allI impI)
        fix m assume "card (reachable h root) < m"
        with fin have "Walk m h root before after u =
            Walk (Suc (card (reachable h root))) h root before after u"
          by (rule Walk_stable)
        with Some Inl show "Walk m h root before after u = Some (Inl e)" by simp
      qed
      then show ?thesis ..
    next
      case (Inr v)
      with Some have "Walk (Suc (card (reachable h root))) h root before after u = Some (Inr v)"
        by simp
      with no show ?thesis by contradiction
    qed
  qed
  show "walk (Suc n) h (Ptr k p) before after (seen, u) = Some (Inl (Unexpected_type k))"
    if "Ptr k p \<notin> seen"
    using that by (simp add: walk_cases_no_case [OF assms(2)])
qed

theorem Walk_panics_on_type_without_case_witness:
  "Ptr Prefix (Some 0) \<in> reachable prefix_heap (Ptr Expr (Some 0)) \<and> \<not> has_case Prefix
   \<and> finite (reachable prefix_heap (Ptr Expr (Some 0)))
   \<and> Ptr Prefix (Some 0) \<notin> nil_seen
   \<and> Walk 3 prefix_heap (Ptr Expr (Some 0)) record_enter record_exit [] \<noteq> Some (Inr [])
   \<and> (\<exists>e. \<forall>m>card (reachable prefix_heap (Ptr Expr (Some 0))).
          Walk m prefix_heap (Ptr Expr (Some 0)) record_enter record_exit [] = Some (Inl e))
   \<and> walk (Suc 3) prefix_heap (Ptr Prefix (Some 0)) record_enter record_exit (nil_seen, []) =
       Some (Inl (Unexpected_type Prefix))"
proof -
  have nc: "\<not> has_case Prefix" by simp
  have out: "Ptr Prefix (Some 0) \<notin> nil_seen" by (simp add: nil_seen_def)
  note panics = Walk_panics_on_type_without_case [OF prefix_reachable nc,
      where n = 3 and before = record_enter and after = record_exit and u = "[]" and u' = "[]"
      and seen = nil_seen]
  from panics have a: "Walk 3 prefix_heap (Ptr Expr (Some 0)) record_enter record_exit [] \<noteq> Some (Inr [])"
    by (rule conjunct1)
  from panics finite_prefix_heap have b:
    "\<exists>e. \<forall>m>card (reachable prefix_heap (Ptr Expr (Some 0))).
          Walk m prefix_heap (Ptr Expr (Some 0)) record_enter record_exit [] = Some (Inl e)"
    by (elim conjE) (rule mp)
  from panics out have c:
    "walk (Suc 3) prefix_heap (Ptr Prefix (Some 0)) record_enter record_exit (nil_seen, []) =
       Some (Inl (Unexpected_type Prefix))"
    by (elim conjE) (erule mp)
  from prefix_reachable nc finite_prefix_heap out a b c show ?thesis by (intro conjI)
qed










section \<open>Properties of the codec\<close>

lemma UnmarshalJSON_returns_only:
  assumes "UnmarshalJSON d x = Some r"
  shows "(\<exists>s. d = Malformed s) \<or> x = None"
proof -
  have "(case (d, x) of (d', x') \<Rightarrow> \<lambda>r'. (\<exists>s. d' = Malformed s) \<or> x' = None) r"
  proof (rule UnmarshalJSON.raw_induct)
    show "(case (d, x) of (d', x') \<Rightarrow> UnmarshalJSON d' x') = Some r" using assms by simp
  next
    fix f :: "data \<Rightarrow> cast_expr option \<Rightarrow> (json_error + cast_expr) option" and d' x' r'
    assume IH: "\<And>a b y. f a b = Some y \<Longrightarrow> (\<exists>s. a = Malformed s) \<or> b = None"
      and eq: "(case d' of
          Wellformed j \<Rightarrow>
            (case x' of None \<Rightarrow> Some (Inl InvalidUnmarshalError) | Some c \<Rightarrow> f d' x')
        | Malformed s \<Rightarrow> Some (Inl SyntaxError)) = Some r'"
    show "(\<exists>s. d' = Malformed s) \<or> x' = None"
    proof (cases d')
      case (Malformed s)
      then show ?thesis by simp
    next
      case (Wellformed j)
      show ?thesis
      proof (cases x')
        case None
        then show ?thesis by simp
      next
        case (Some c)
        with Wellformed eq have "f d' x' = Some r'" by simp
        then show ?thesis by (rule IH)
      qed
    qed
  qed
  then show ?thesis by simp
qed

lemma UnmarshalJSON_never_returns: "UnmarshalJSON (Wellformed j) (Some c) = None"
proof (cases "UnmarshalJSON (Wellformed j) (Some c)")
  case None
  then show ?thesis .
next
  case (Some r)
  then have "(\<exists>s. Wellformed j = Malformed s) \<or> Some c = None"
    by (rule UnmarshalJSON_returns_only)
  then show ?thesis by simp
qed

text \<open>
  Claim C7: decoding the encoding of a \<^verbatim>\<open>CastExpr\<close> rebuilds a node with the
  discriminant \<^verbatim>\<open>CastExpr\<close>, the same operator and equal children. \<^verbatim>\<open>UnmarshalJSON\<close> passes
  its receiver to \<^verbatim>\<open>json.Unmarshal\<close>, which calls \<^verbatim>\<open>UnmarshalJSON\<close> of the receiver again:
  on what \<^verbatim>\<open>MarshalJSON\<close> has returned, the decoding into a receiver that is not nil never
  returns.
\<close>

theorem UnmarshalJSON_of_MarshalJSON_never_returns:
  "MarshalJSON marshal (Some n) = Inr (n', Inr d) \<Longrightarrow> UnmarshalJSON d (Some c) = None"
proof -
  assume "MarshalJSON marshal (Some n) = Inr (n', Inr d)"
  then obtain j where "d = Wellformed j"
    by (auto simp add: MarshalJSON_def Let_def split: sum.splits)
  then show ?thesis by (simp add: UnmarshalJSON_never_returns)
qed

theorem UnmarshalJSON_of_MarshalJSON_never_returns_witness:
  "MarshalJSON marshal_example (Some cast_example) =
     Inr (cast_example\<lparr>CastExpr_Kind := ''CastExpr''\<rparr>,
          Inr (Wellformed (JObject [(''kind'', JString ''CastExpr''), (''id'', JNumber 7),
                 (''op'', JNumber 17), (''type'', JObject []), (''expr'', JObject [])])))
   \<and> UnmarshalJSON
        (Wellformed (JObject [(''kind'', JString ''CastExpr''), (''id'', JNumber 7),
                 (''op'', JNumber 17), (''type'', JObject []), (''expr'', JObject [])]))
        (Some cast_example) = None"
proof -
  have m: "MarshalJSON marshal_example (Some cast_example) =
     Inr (cast_example\<lparr>CastExpr_Kind := ''CastExpr''\<rparr>,
          Inr (Wellformed (JObject [(''kind'', JString ''CastExpr''), (''id'', JNumber 7),
                 (''op'', JNumber 17), (''type'', JObject []), (''expr'', JObject [])])))"
    by (simp add: MarshalJSON_def marshal_example_def cast_example_def)
  from m UnmarshalJSON_of_MarshalJSON_never_returns [OF m] show ?thesis by (rule conjI)
qed

lemma UnmarshalJSON_returns_errors:
  "UnmarshalJSON (Malformed s) x = Some (Inl SyntaxError)
   \<and> UnmarshalJSON (Wellformed j) None = Some (Inl InvalidUnmarshalError)"
  by (subst UnmarshalJSON.simps, subst (2) UnmarshalJSON.simps) simp

text \<open>
  Claim C8: decoding a record with an unrecognized discriminant, or with required
  fields absent or of the wrong type, returns a FormatError to the caller and never
  crashes. The record with the discriminant \<^verbatim>\<open>BogusExpr\<close> is well-formed JSON, so decoding
  it into a receiver that is not nil runs into the recursion of \<^verbatim>\<open>UnmarshalJSON\<close> through
  \<^verbatim>\<open>json.Unmarshal\<close>: no error is returned, the call does not return.
\<close>

theorem UnmarshalJSON_bogus_discriminant:
  "UnmarshalJSON (Wellformed (JObject [(''kind'', JString ''BogusExpr'')])) (Some cast_example)
     = None"
  by (rule UnmarshalJSON_never_returns)

end
